theory Spec2Isabelle
  imports Main "HOL-Library.Word"
begin

unbundle bit_operations_syntax

section \<open>Machine types\<close>

text \<open>
  The library is written for the 8-bit AVR Arduino boards (the header notes that an
  enum takes 2 bytes there): \<open>int\<close> has 16 bits, \<open>long\<close> has 32 bits, \<open>char\<close> and
  \<open>byte\<close> have 8 bits.  Signed values are words read with \<open>sint\<close>; comparisons of
  signed values are \<open><s\<close> and \<open>\<le>s\<close>.  A left shift of a signed value that does not fit
  wraps around, as avr-gcc compiles it.
\<close>

type_synonym c_int = "16 word"
type_synonym c_long = "32 word"
type_synonym c_char = "8 word"
type_synonym byte = "8 word"

type_synonym chunk_t = byte
type_synonym event_t = byte

abbreviation (input) CT_UNK :: chunk_t where "CT_UNK \<equiv> 0"
abbreviation (input) CT_END :: chunk_t where "CT_END \<equiv> 1"
abbreviation (input) CT_MTHD :: chunk_t where "CT_MTHD \<equiv> 100"
abbreviation (input) CT_MTRK :: chunk_t where "CT_MTRK \<equiv> 101"

abbreviation (input) ET_UNK :: event_t where "ET_UNK \<equiv> 0"
abbreviation (input) ET_NO_OP :: event_t where "ET_NO_OP \<equiv> 1"
abbreviation (input) ET_END :: event_t where "ET_END \<equiv> 2"
abbreviation (input) ET_SYSEX_F0 :: event_t where "ET_SYSEX_F0 \<equiv> 3"
abbreviation (input) ET_SYSEX_ESC :: event_t where "ET_SYSEX_ESC \<equiv> 4"
abbreviation (input) ET_SEQ_NUM :: event_t where "ET_SEQ_NUM \<equiv> 5"
abbreviation (input) ET_TEXT :: event_t where "ET_TEXT \<equiv> 6"
abbreviation (input) ET_COPYRIGHT :: event_t where "ET_COPYRIGHT \<equiv> 7"
abbreviation (input) ET_NAME :: event_t where "ET_NAME \<equiv> 8"
abbreviation (input) ET_INSTRUMENT :: event_t where "ET_INSTRUMENT \<equiv> 9"
abbreviation (input) ET_LYRIC :: event_t where "ET_LYRIC \<equiv> 10"
abbreviation (input) ET_MARKER :: event_t where "ET_MARKER \<equiv> 11"
abbreviation (input) ET_CUE :: event_t where "ET_CUE \<equiv> 12"
abbreviation (input) ET_CHAN_PREFIX :: event_t where "ET_CHAN_PREFIX \<equiv> 13"
abbreviation (input) ET_END_TRACK :: event_t where "ET_END_TRACK \<equiv> 14"
abbreviation (input) ET_TEMPO :: event_t where "ET_TEMPO \<equiv> 15"
abbreviation (input) ET_SMPTE_OFFSET :: event_t where "ET_SMPTE_OFFSET \<equiv> 16"
abbreviation (input) ET_TIME_SIGN :: event_t where "ET_TIME_SIGN \<equiv> 17"
abbreviation (input) ET_KEY_SIGN :: event_t where "ET_KEY_SIGN \<equiv> 18"
abbreviation (input) ET_CHANNEL :: event_t where "ET_CHANNEL \<equiv> 19"

definition EV_BUFFER_SIZE :: c_int where
  "EV_BUFFER_SIZE = 140 + 1"

section \<open>Event data\<close>

text \<open>
  The structs \<open>dataSysexF0\<close>, \<open>dataSysexEsc\<close>, \<open>dataText\<close>, \<open>dataCopyright\<close>, \<open>dataName\<close>,
  \<open>dataInstrument\<close>, \<open>dataLyric\<close>, \<open>dataMarker\<close> and \<open>dataCue\<close> have the same two fields,
  \<open>int length\<close> and \<open>char bytes[EV_BUFFER_SIZE]\<close>; they share the record \<open>dataBuf\<close>.
  The members of \<open>union eventData\<close> are kept side by side: the overlap of their
  storage is not modelled, and only the member of the current event type is meaningful.
\<close>

record dataBuf =
  buf_length :: c_int
  buf_bytes :: "c_char list"

record dataSmpteOffset =
  hours :: c_int
  minutes :: c_int
  seconds :: c_int
  frames :: c_int
  f100ths :: c_int

record dataTimeSign =
  numer :: c_int
  denom :: c_int
  metro :: c_int
  m32nds :: c_int

record dataKeySign =
  numSharps :: c_int
  isMinor :: c_int

record dataChannel =
  code :: c_char
  chan :: c_int
  param1 :: c_int
  param2 :: c_int

record eventData =
  sysexF0 :: dataBuf
  sysexEsc :: dataBuf
  seqNum_number :: c_int
  text_ev :: dataBuf
  copyright :: dataBuf
  name_ev :: dataBuf
  instrument :: dataBuf
  lyric :: dataBuf
  marker :: dataBuf
  cue :: dataBuf
  chanPrefix_chan :: c_int
  tempo_uSecPerBeat :: c_long
  smpteOffset :: dataSmpteOffset
  timeSign :: dataTimeSign
  keySign :: dataKeySign
  channel :: dataChannel

section \<open>The stream object\<close>

text \<open>
  \<open>pStream\<close> holds the bytes that the underlying Arduino \<open>Stream\<close> has not delivered
  yet.  \<open>Stream::read()\<close> belongs to the Arduino core: it returns the next byte as an
  \<open>int\<close> in 0..255, or -1 when there is none.
\<close>

record MidiFileStream =
  pStream :: "byte list"
  bytesLeft :: c_long
  format :: c_int
  numTracks :: c_int
  ticksPerBeat :: c_int
  runningStatus :: c_int
  eventType :: event_t
  eventDeltaTicks :: c_long
  eventData :: eventData

definition stream_read :: "MidiFileStream \<Rightarrow> c_int \<times> MidiFileStream" where
  "stream_read s =
     (case pStream s of
        [] \<Rightarrow> (- 1, s)
      | b # bs \<Rightarrow> (ucast b, s\<lparr>pStream := bs\<rparr>))"

definition getFormat :: "MidiFileStream \<Rightarrow> c_int" where
  "getFormat s = format s"

definition getNumTracks :: "MidiFileStream \<Rightarrow> c_int" where
  "getNumTracks s = numTracks s"

definition getTicksPerBeat :: "MidiFileStream \<Rightarrow> c_int" where
  "getTicksPerBeat s = ticksPerBeat s"

definition getChunkBytesLeft :: "MidiFileStream \<Rightarrow> c_long" where
  "getChunkBytesLeft s = bytesLeft s"

definition getEventDeltaTicks :: "MidiFileStream \<Rightarrow> c_long" where
  "getEventDeltaTicks s = eventDeltaTicks s"

definition getEventType :: "MidiFileStream \<Rightarrow> event_t" where
  "getEventType s = eventType s"

section \<open>Reading inside a chunk\<close>

definition readChunkByte :: "MidiFileStream \<Rightarrow> c_int \<times> MidiFileStream" where
  "readChunkByte s =
     (if bytesLeft s \<le>s 0 then (- 1, s)
      else stream_read (s\<lparr>bytesLeft := bytesLeft s - 1\<rparr>))"

text \<open>
  \<open>readFixedLong\<close>: the loop \<open>for (i = 0; i < numBytes; ++i)\<close> runs
  \<open>nat (sint numBytes)\<close> times; the first argument of the loop function is the number
  of iterations still to run.
\<close>

fun readFixedLong_loop :: "nat \<Rightarrow> c_long \<Rightarrow> MidiFileStream \<Rightarrow> c_long \<times> MidiFileStream" where
  "readFixedLong_loop 0 result s = (result, s)"
| "readFixedLong_loop (Suc n) result s =
     (let (bint, s1) = readChunkByte s in
      if bint <s 0 then (- 1, s1)
      else readFixedLong_loop n (push_bit 8 result OR scast bint) s1)"

definition readFixedLong :: "c_int \<Rightarrow> MidiFileStream \<Rightarrow> c_long \<times> MidiFileStream" where
  "readFixedLong numBytes s = readFixedLong_loop (nat (sint numBytes)) 0 s"

text \<open>
  \<open>readVariableLong\<close>: the loop is entered with \<open>anotherByte\<close> true; \<open>numBytes\<close> only
  takes the values 0..5, so it is a natural number here.
\<close>

function readVariableLong_loop :: "nat \<Rightarrow> c_long \<Rightarrow> MidiFileStream \<Rightarrow> c_long \<times> MidiFileStream" where
  "readVariableLong_loop numBytes result s =
     (if numBytes > 4 then (- 1, s)
      else
        let (bint, s1) = readChunkByte s in
        if bint <s 0 then (- 1, s1)
        else
          let anotherByte = (bint AND 0x80 = 0x80);
              result1 = push_bit 7 result OR scast (bint AND 0x7F)
          in if anotherByte then readVariableLong_loop (numBytes + 1) result1 s1
             else (result1, s1))"
  by pat_completeness auto
termination
  by (relation "measure (\<lambda>(numBytes, result, s). 5 - numBytes)") auto

declare readVariableLong_loop.simps [simp del]

definition readVariableLong :: "MidiFileStream \<Rightarrow> c_long \<times> MidiFileStream" where
  "readVariableLong s = readVariableLong_loop 0 0 s"

text \<open>
  \<open>readVariableBytes\<close>: the first loop stores \<open>truncLength\<close> bytes through \<open>cp\<close>, the
  second one skips the bytes up to \<open>length\<close>.  The buffer is the array \<open>pBuffer\<close> points
  to; \<open>i\<close> is the offset of \<open>cp\<close> in it.  A loop returns \<open>False\<close> where the source
  returns from inside it.  \<open>skip_loop\<close> is the loop that reads and drops a number of
  bytes; the unknown meta event of \<open>readEvent\<close> has the same loop.
\<close>

fun readVariableBytes_store ::
  "nat \<Rightarrow> nat \<Rightarrow> c_char list \<Rightarrow> MidiFileStream \<Rightarrow> bool \<times> c_char list \<times> MidiFileStream" where
  "readVariableBytes_store 0 i buf s = (True, buf, s)"
| "readVariableBytes_store (Suc n) i buf s =
     (let (bint, s1) = readChunkByte s in
      if bint <s 0 then (False, buf, s1)
      else readVariableBytes_store n (Suc i) (buf[i := ucast bint]) s1)"

fun skip_loop :: "nat \<Rightarrow> MidiFileStream \<Rightarrow> bool \<times> MidiFileStream" where
  "skip_loop 0 s = (True, s)"
| "skip_loop (Suc n) s =
     (let (bint, s1) = readChunkByte s in
      if bint <s 0 then (False, s1)
      else skip_loop n s1)"

definition readVariableBytes ::
  "c_long \<Rightarrow> c_char list \<Rightarrow> MidiFileStream \<Rightarrow> c_long \<times> c_char list \<times> MidiFileStream" where
  "readVariableBytes length0 pBuffer s =
     (let buf0 = pBuffer[0 := 0];
          truncLength = (if scast (EV_BUFFER_SIZE - 1) <s length0
                         then scast (EV_BUFFER_SIZE - 1) else length0);
          stored = nat (sint truncLength);
          (ok1, buf1, s1) = readVariableBytes_store stored 0 buf0 s
      in if \<not> ok1 then (- 1, buf1, s1)
         else
           let buf2 = buf1[stored := 0];
               (ok2, s2) = skip_loop (nat (sint length0) - stored) s1
           in if \<not> ok2 then (- 1, buf2, s2)
              else (truncLength, buf2, s2))"

section \<open>Chunks and the file header\<close>

text \<open>
  \<open>openChunk\<close>: the signature is read from the stream directly, not through
  \<open>readChunkByte\<close>.  \<open>openChunk_sig\<close> is the loop over \<open>sig[i]\<close>; it returns \<open>Some\<close> of
  the chunk type where the source returns from inside the loop.  The two loops that
  compare \<open>sig\<close> with \<open>mthd\<close> and \<open>mtrk\<close> end with \<open>i == 4\<close> exactly when the four
  characters agree, which is equality of the lists.
\<close>

definition mthd :: "c_char list" where
  "mthd = [0x4D, 0x54, 0x68, 0x64]"

definition mtrk :: "c_char list" where
  "mtrk = [0x4D, 0x54, 0x72, 0x6B]"

fun openChunk_sig ::
  "nat \<Rightarrow> nat \<Rightarrow> c_char list \<Rightarrow> MidiFileStream \<Rightarrow> chunk_t option \<times> c_char list \<times> MidiFileStream" where
  "openChunk_sig 0 i sig s = (None, sig, s)"
| "openChunk_sig (Suc n) i sig s =
     (let (bint, s1) = stream_read s;
          sig1 = sig[i := ucast bint]
      in if bint <s 0 then (Some (if i = 0 then CT_END else CT_UNK), sig1, s1)
         else openChunk_sig n (Suc i) sig1 s1)"

definition openChunk :: "MidiFileStream \<Rightarrow> chunk_t \<times> MidiFileStream" where
  "openChunk s =
     (let s0 = s\<lparr>bytesLeft := - 1, runningStatus := 0, eventType := ET_UNK,
                 eventDeltaTicks := - 1\<rparr>;
          (early, sig, s1) = openChunk_sig 4 0 [0, 0, 0, 0] s0
      in case early of
           Some ct \<Rightarrow> (ct, s1)
         | None \<Rightarrow>
             let s2 = s1\<lparr>bytesLeft := 4\<rparr>;
                 (l, s3) = readFixedLong 4 s2;
                 s4 = s3\<lparr>bytesLeft := l\<rparr>
             in if bytesLeft s4 <s 0 then (CT_UNK, s4)
                else if sig = mthd then (CT_MTHD, s4)
                else if sig = mtrk then (CT_MTRK, s4)
                else (CT_UNK, s4))"

text \<open>
  \<open>begin\<close> is a keyword of Isabelle: the function is \<open>mfs_begin\<close>.  It takes the bytes
  that the open stream will deliver.  \<open>mfs_begin_fields\<close> is its second half, from the
  reading of the format on.
\<close>

definition mfs_begin_fields :: "MidiFileStream \<Rightarrow> bool \<times> MidiFileStream" where
  "mfs_begin_fields s1 =
     (let (l1, s2) = readFixedLong 2 s1;
          s3 = s2\<lparr>format := ucast l1\<rparr>
      in if format s3 <s 0 then (False, s3)
         else
           let (l2, s4) = readFixedLong 2 s3;
               s5 = s4\<lparr>numTracks := ucast l2\<rparr>
           in if numTracks s5 <s 0 then (False, s5)
              else
                let (l3, s6) = readFixedLong 2 s5;
                    s7 = s6\<lparr>ticksPerBeat := ucast l3\<rparr>
                in if ticksPerBeat s7 <s 0 then (False, s7)
                   else if 0 <s bytesLeft s7 then (False, s7)
                   else (True, s7))"

definition mfs_begin :: "byte list \<Rightarrow> MidiFileStream \<Rightarrow> bool \<times> MidiFileStream" where
  "mfs_begin stream s =
     (let s0 = s\<lparr>pStream := stream, bytesLeft := - 1, format := - 1, numTracks := - 1,
                 ticksPerBeat := 0, runningStatus := 0, eventType := ET_UNK,
                 eventDeltaTicks := - 1\<rparr>;
          (chunkType, s1) = openChunk s0
      in if chunkType \<noteq> CT_MTHD then (False, s1)
         else if bytesLeft s1 \<noteq> 6 then (False, s1)
         else mfs_begin_fields s1)"

section \<open>Events\<close>

text \<open>
  \<open>ret\<close> is \<open>return _eventType;\<close> and \<open>fail_ev\<close> is
  \<open>_eventType = ET_UNK; return _eventType;\<close>.
\<close>

definition ret :: "MidiFileStream \<Rightarrow> event_t \<times> MidiFileStream" where
  "ret s = (eventType s, s)"

definition fail_ev :: "MidiFileStream \<Rightarrow> event_t \<times> MidiFileStream" where
  "fail_ev s = ret (s\<lparr>eventType := ET_UNK\<rparr>)"

text \<open>
  The sysex events and the text-shaped meta events all run
  \<open>_eventType = et; _eventData.m.length = readVariableBytes(length, &_eventData.m.bytes[0]);\<close>
  and fail when the stored length is negative; \<open>member\<close> and \<open>member_update\<close> select the
  member \<open>m\<close> of the union.
\<close>

definition readBufEvent ::
  "event_t \<Rightarrow> (eventData \<Rightarrow> dataBuf) \<Rightarrow> ((dataBuf \<Rightarrow> dataBuf) \<Rightarrow> eventData \<Rightarrow> eventData) \<Rightarrow>
   c_long \<Rightarrow> MidiFileStream \<Rightarrow> event_t \<times> MidiFileStream" where
  "readBufEvent et member member_update length0 s =
     (let s1 = s\<lparr>eventType := et\<rparr>;
          (n, buf, s2) = readVariableBytes length0 (buf_bytes (member (eventData s1))) s1;
          stored = (ucast n :: c_int);
          s3 = s2\<lparr>eventData :=
                 member_update (\<lambda>_. \<lparr>buf_length = stored, buf_bytes = buf\<rparr>) (eventData s2)\<rparr>
      in if stored <s 0 then fail_ev s3 else ret s3)"

definition readEvent_sysex :: "c_int \<Rightarrow> MidiFileStream \<Rightarrow> event_t \<times> MidiFileStream" where
  "readEvent_sysex bint s =
     (let s1 = s\<lparr>runningStatus := 0\<rparr>;
          (length0, s2) = readVariableLong s1
      in if length0 <s 0 then fail_ev s2
         else if bint = 0xF0 then readBufEvent ET_SYSEX_F0 sysexF0 sysexF0_update length0 s2
         else if bint = 0xF7 then readBufEvent ET_SYSEX_ESC sysexEsc sysexEsc_update length0 s2
         else ret s2)"

definition meta_seq_num :: "c_long \<Rightarrow> MidiFileStream \<Rightarrow> event_t \<times> MidiFileStream" where
  "meta_seq_num length0 s =
     (let s1 = s\<lparr>eventType := ET_SEQ_NUM\<rparr>
      in if length0 \<noteq> 2 then fail_ev s1
         else
           let (l, s2) = readFixedLong 2 s1
           in if l <s 0 then fail_ev s2
              else ret (s2\<lparr>eventData := (eventData s2)\<lparr>seqNum_number := ucast l\<rparr>\<rparr>))"

definition meta_chan_prefix :: "c_long \<Rightarrow> MidiFileStream \<Rightarrow> event_t \<times> MidiFileStream" where
  "meta_chan_prefix length0 s =
     (let s1 = s\<lparr>eventType := ET_CHAN_PREFIX\<rparr>
      in if length0 \<noteq> 1 then fail_ev s1
         else
           let (bint, s2) = readChunkByte s1
           in if bint <s 0 then fail_ev s2
              else ret (s2\<lparr>eventData := (eventData s2)\<lparr>chanPrefix_chan := bint\<rparr>\<rparr>))"

definition meta_end_track :: "c_long \<Rightarrow> MidiFileStream \<Rightarrow> event_t \<times> MidiFileStream" where
  "meta_end_track length0 s =
     (let s1 = s\<lparr>eventType := ET_END_TRACK\<rparr>
      in if length0 \<noteq> 0 then fail_ev s1 else ret s1)"

definition meta_tempo :: "c_long \<Rightarrow> MidiFileStream \<Rightarrow> event_t \<times> MidiFileStream" where
  "meta_tempo length0 s =
     (let s1 = s\<lparr>eventType := ET_TEMPO\<rparr>
      in if length0 \<noteq> 3 then fail_ev s1
         else
           let (l, s2) = readFixedLong 3 s1;
               s3 = s2\<lparr>eventData := (eventData s2)\<lparr>tempo_uSecPerBeat := l\<rparr>\<rparr>
           in if l <s 0 then fail_ev s3 else ret s3)"

text \<open>
  In the SMPTE offset, time signature and key signature events a failed read is
  \<open>bint = readChunkByte(); if (bint < 0) { _eventType = ET_UNK; }\<close> with no return:
  the value -1 is stored and the next field is read.  \<open>readChunkByte_noreturn\<close> is that
  pair of statements.
\<close>

definition readChunkByte_noreturn :: "MidiFileStream \<Rightarrow> c_int \<times> MidiFileStream" where
  "readChunkByte_noreturn s =
     (let (bint, s1) = readChunkByte s
      in (bint, if bint <s 0 then s1\<lparr>eventType := ET_UNK\<rparr> else s1))"

definition meta_smpte_offset :: "c_long \<Rightarrow> MidiFileStream \<Rightarrow> event_t \<times> MidiFileStream" where
  "meta_smpte_offset length0 s =
     (let s1 = s\<lparr>eventType := ET_SMPTE_OFFSET\<rparr>
      in if length0 \<noteq> 5 then fail_ev s1
         else
           let (b1, t1) = readChunkByte_noreturn s1;
               u1 = t1\<lparr>eventData := (eventData t1)
                      \<lparr>smpteOffset := (smpteOffset (eventData t1))\<lparr>hours := b1\<rparr>\<rparr>\<rparr>;
               (b2, t2) = readChunkByte_noreturn u1;
               u2 = t2\<lparr>eventData := (eventData t2)
                      \<lparr>smpteOffset := (smpteOffset (eventData t2))\<lparr>minutes := b2\<rparr>\<rparr>\<rparr>;
               (b3, t3) = readChunkByte_noreturn u2;
               u3 = t3\<lparr>eventData := (eventData t3)
                      \<lparr>smpteOffset := (smpteOffset (eventData t3))\<lparr>seconds := b3\<rparr>\<rparr>\<rparr>;
               (b4, t4) = readChunkByte_noreturn u3;
               u4 = t4\<lparr>eventData := (eventData t4)
                      \<lparr>smpteOffset := (smpteOffset (eventData t4))\<lparr>frames := b4\<rparr>\<rparr>\<rparr>;
               (b5, t5) = readChunkByte_noreturn u4;
               u5 = t5\<lparr>eventData := (eventData t5)
                      \<lparr>smpteOffset := (smpteOffset (eventData t5))\<lparr>f100ths := b5\<rparr>\<rparr>\<rparr>
           in ret u5)"

text \<open>
  \<open>1 << bint\<close> is computed in 16 bits; a shift by 16 or more (and by -1 after a failed
  read) is not defined by C, and is 0 here.
\<close>

definition meta_time_sign :: "c_long \<Rightarrow> MidiFileStream \<Rightarrow> event_t \<times> MidiFileStream" where
  "meta_time_sign length0 s =
     (let s1 = s\<lparr>eventType := ET_TIME_SIGN\<rparr>
      in if length0 \<noteq> 4 then fail_ev s1
         else
           let (b1, t1) = readChunkByte_noreturn s1;
               u1 = t1\<lparr>eventData := (eventData t1)
                      \<lparr>timeSign := (timeSign (eventData t1))\<lparr>numer := b1\<rparr>\<rparr>\<rparr>;
               (b2, t2) = readChunkByte_noreturn u1;
               u2 = t2\<lparr>eventData := (eventData t2)
                      \<lparr>timeSign := (timeSign (eventData t2))\<lparr>denom := push_bit (unat b2) 1\<rparr>\<rparr>\<rparr>;
               (b3, t3) = readChunkByte_noreturn u2;
               u3 = t3\<lparr>eventData := (eventData t3)
                      \<lparr>timeSign := (timeSign (eventData t3))\<lparr>metro := b3\<rparr>\<rparr>\<rparr>;
               (b4, t4) = readChunkByte_noreturn u3;
               u4 = t4\<lparr>eventData := (eventData t4)
                      \<lparr>timeSign := (timeSign (eventData t4))\<lparr>m32nds := b4\<rparr>\<rparr>\<rparr>
           in ret u4)"

definition meta_key_sign :: "c_long \<Rightarrow> MidiFileStream \<Rightarrow> event_t \<times> MidiFileStream" where
  "meta_key_sign length0 s =
     (let s1 = s\<lparr>eventType := ET_KEY_SIGN\<rparr>
      in if length0 \<noteq> 2 then fail_ev s1
         else
           let (b1, t1) = readChunkByte_noreturn s1;
               sharps = (if b1 AND 0x80 \<noteq> 0 then b1 OR - 0x80 else b1);
               u1 = t1\<lparr>eventData := (eventData t1)
                      \<lparr>keySign := (keySign (eventData t1))\<lparr>numSharps := sharps\<rparr>\<rparr>\<rparr>;
               (b2, t2) = readChunkByte_noreturn u1;
               u2 = t2\<lparr>eventData := (eventData t2)
                      \<lparr>keySign := (keySign (eventData t2))\<lparr>isMinor := b2\<rparr>\<rparr>\<rparr>
           in ret u2)"

definition meta_unknown :: "c_long \<Rightarrow> MidiFileStream \<Rightarrow> event_t \<times> MidiFileStream" where
  "meta_unknown length0 s =
     (let s1 = s\<lparr>eventType := ET_NO_OP\<rparr>;
          (ok, s2) = skip_loop (nat (sint length0)) s1
      in if \<not> ok then fail_ev s2 else ret s2)"

text \<open>
  \<open>meta_switch\<close> is the statement \<open>switch ((char) metaType)\<close>, the cases tried in the
  order of the source.
\<close>

definition meta_switch :: "c_char \<Rightarrow> c_long \<Rightarrow> MidiFileStream \<Rightarrow> event_t \<times> MidiFileStream" where
  "meta_switch mt length0 s =
     (if mt = 0x00 then meta_seq_num length0 s
      else if mt = 0x01 then readBufEvent ET_TEXT text_ev text_ev_update length0 s
      else if mt = 0x02 then readBufEvent ET_COPYRIGHT copyright copyright_update length0 s
      else if mt = 0x03 then readBufEvent ET_NAME name_ev name_ev_update length0 s
      else if mt = 0x04 then readBufEvent ET_INSTRUMENT instrument instrument_update length0 s
      else if mt = 0x05 then readBufEvent ET_LYRIC lyric lyric_update length0 s
      else if mt = 0x06 then readBufEvent ET_MARKER marker marker_update length0 s
      else if mt = 0x07 then readBufEvent ET_CUE cue cue_update length0 s
      else if mt = 0x20 then meta_chan_prefix length0 s
      else if mt = 0x2F then meta_end_track length0 s
      else if mt = 0x51 then meta_tempo length0 s
      else if mt = 0x54 then meta_smpte_offset length0 s
      else if mt = 0x58 then meta_time_sign length0 s
      else if mt = 0x59 then meta_key_sign length0 s
      else meta_unknown length0 s)"

definition readEvent_meta :: "MidiFileStream \<Rightarrow> event_t \<times> MidiFileStream" where
  "readEvent_meta s =
     (let s0 = s\<lparr>runningStatus := 0\<rparr>;
          (metaType, s1) = readChunkByte s0
      in if metaType <s 0 then fail_ev s1
         else
           let (length0, s2) = readVariableLong s1
           in if length0 <s 0 then fail_ev s2
              else meta_switch (ucast metaType) length0 s2)"

text \<open>
  The channel event.  \<open>bint0\<close> is the byte just read; \<open>runningBint\<close> is -1 unless that
  byte is the first parameter.  \<open>bint >> 4\<close> is the arithmetic shift of a signed \<open>int\<close>,
  and \<open>code\<close>, a \<open>char\<close>, is promoted to \<open>int\<close> for the comparisons with 0xC and 0xD.
\<close>

definition channel_param2 :: "MidiFileStream \<Rightarrow> event_t \<times> MidiFileStream" where
  "channel_param2 s =
     (let c = (scast (code (channel (eventData s))) :: c_int)
      in if c = 0xC \<or> c = 0xD then
           ret (s\<lparr>eventData := (eventData s)\<lparr>channel := (channel (eventData s))\<lparr>param2 := 0\<rparr>\<rparr>\<rparr>)
         else
           let (bint, s1) = readChunkByte s
           in if bint <s 0 then fail_ev s1
              else ret (s1\<lparr>eventData := (eventData s1)
                          \<lparr>channel := (channel (eventData s1))\<lparr>param2 := bint\<rparr>\<rparr>\<rparr>))"

definition readEvent_channel :: "c_int \<Rightarrow> MidiFileStream \<Rightarrow> event_t \<times> MidiFileStream" where
  "readEvent_channel bint0 s =
     (let s1 = s\<lparr>eventType := ET_CHANNEL\<rparr>;
          running = (bint0 AND 0x80 = 0);
          runningBint = (if running then bint0 else - 1);
          bint = (if running then runningStatus s1 else bint0)
      in if running \<and> bint AND 0x80 = 0 then fail_ev s1
         else
           let s2 = s1\<lparr>eventData := (eventData s1)
                      \<lparr>channel := (channel (eventData s1))
                         \<lparr>code := ucast (signed_drop_bit 4 bint), chan := bint AND 0x0F\<rparr>\<rparr>,
                      runningStatus := bint\<rparr>
           in if runningBint \<noteq> - 1 then
                channel_param2 (s2\<lparr>eventData := (eventData s2)
                   \<lparr>channel := (channel (eventData s2))\<lparr>param1 := runningBint\<rparr>\<rparr>\<rparr>)
              else
                let (b, s3) = readChunkByte s2
                in if b <s 0 then fail_ev s3
                   else channel_param2 (s3\<lparr>eventData := (eventData s3)
                          \<lparr>channel := (channel (eventData s3))\<lparr>param1 := b\<rparr>\<rparr>\<rparr>))"

definition readEvent :: "MidiFileStream \<Rightarrow> event_t \<times> MidiFileStream" where
  "readEvent s =
     (let s0 = s\<lparr>eventType := ET_UNK\<rparr>;
          (d, s1) = readVariableLong s0;
          s2 = s1\<lparr>eventDeltaTicks := d\<rparr>
      in if eventDeltaTicks s2 <s 0 then ret (s2\<lparr>eventType := ET_END\<rparr>)
         else
           let (bint, s3) = readChunkByte s2
           in if bint <s 0 then fail_ev s3
              else if bint = 0xF0 \<or> bint = 0xF7 then readEvent_sysex bint s3
              else if bint = 0xFF then readEvent_meta s3
              else readEvent_channel bint s3)"

section \<open>Notions used to state the properties\<close>

text \<open>
  \<open>consume n s\<close> is the object after \<open>n\<close> bytes of the chunk have been read: the stream
  is \<open>n\<close> bytes further and the budget \<open>n\<close> lower.
\<close>

definition consume :: "nat \<Rightarrow> MidiFileStream \<Rightarrow> MidiFileStream" where
  "consume n s = s\<lparr>bytesLeft := bytesLeft s - of_nat n, pStream := drop n (pStream s)\<rparr>"

text \<open>
  The variable-length quantity of the MIDI file format, which this library only reads:
  seven bits per byte, most significant group first, bit 7 set on every byte but the
  last.  \<open>vlq_cont\<close> gives the continuation bytes and \<open>vlq_encode\<close> the whole encoding;
  \<open>vlq_step\<close> is the value after one more byte.
\<close>

fun vlq_cont :: "nat \<Rightarrow> byte list" where
  "vlq_cont x = (if x = 0 then [] else vlq_cont (x div 128) @ [of_nat (x mod 128) OR 0x80])"

declare vlq_cont.simps [simp del]

definition vlq_encode :: "nat \<Rightarrow> byte list" where
  "vlq_encode x = vlq_cont (x div 128) @ [of_nat (x mod 128)]"

definition vlq_step :: "c_long \<Rightarrow> byte \<Rightarrow> c_long" where
  "vlq_step r b = push_bit 7 r OR ucast (b AND 0x7F)"

text \<open>
  An object for the examples: every buffer holds \<open>EV_BUFFER_SIZE\<close> zero bytes, no
  event has been read, and the open chunk has \<open>n\<close> bytes left of the stream \<open>bs\<close>.
\<close>

definition zero_buf :: dataBuf where
  "zero_buf = \<lparr>buf_length = 0, buf_bytes = replicate 141 0\<rparr>"

definition zero_eventData :: eventData where
  "zero_eventData =
     \<lparr>sysexF0 = zero_buf, sysexEsc = zero_buf, seqNum_number = 0, text_ev = zero_buf,
      copyright = zero_buf, name_ev = zero_buf, instrument = zero_buf, lyric = zero_buf,
      marker = zero_buf, cue = zero_buf, chanPrefix_chan = 0, tempo_uSecPerBeat = 0,
      smpteOffset = \<lparr>hours = 0, minutes = 0, seconds = 0, frames = 0, f100ths = 0\<rparr>,
      timeSign = \<lparr>numer = 0, denom = 0, metro = 0, m32nds = 0\<rparr>,
      keySign = \<lparr>numSharps = 0, isMinor = 0\<rparr>,
      channel = \<lparr>code = 0, chan = 0, param1 = 0, param2 = 0\<rparr>\<rparr>"

definition in_chunk :: "byte list \<Rightarrow> c_long \<Rightarrow> MidiFileStream" where
  "in_chunk bs n =
     \<lparr>pStream = bs, bytesLeft = n, format = 1, numTracks = 1, ticksPerBeat = 96,
      runningStatus = 0, eventType = ET_UNK, eventDeltaTicks = - 1,
      eventData = zero_eventData\<rparr>"

text \<open>
  The byte sequences that \<open>readVariableLong\<close> takes as one number: at most five bytes,
  bit 7 set on all but the last.  \<open>vlq_value\<close> is the number it makes of them, in the
  32 bits of a \<open>long\<close>.
\<close>

definition is_vlq :: "byte list \<Rightarrow> bool" where
  "is_vlq bs = (bs \<noteq> [] \<and> length bs \<le> 5 \<and> (\<forall>c\<in>set (butlast bs). bit c 7) \<and> \<not> bit (last bs) 7)"

definition vlq_value :: "byte list \<Rightarrow> c_long" where
  "vlq_value bs = foldl vlq_step 0 bs"

text \<open>
  The status bytes of the channel events that carry one parameter: program change
  (0xC0..0xCF) and channel aftertouch (0xD0..0xDF).
\<close>

definition one_param :: "byte \<Rightarrow> bool" where
  "one_param st = (drop_bit 4 st = 0xC \<or> drop_bit 4 st = 0xD)"

text \<open>
  A track for the examples: a program change with status byte 0xC0, then an event in
  running status whose only parameter is 0x06, then two more bytes.
\<close>

definition prog_change_track :: MidiFileStream where
  "prog_change_track = in_chunk [0x00, 0xC0, 0x05, 0x00, 0x06, 0x07, 0x08] 7"

text \<open>
  The meta events of fixed shape and the length each of them must declare.
\<close>

definition fixed_meta_size :: "c_char \<Rightarrow> c_long option" where
  "fixed_meta_size mt =
     (if mt = 0x00 then Some 2
      else if mt = 0x20 then Some 1
      else if mt = 0x2F then Some 0
      else if mt = 0x51 then Some 3
      else if mt = 0x54 then Some 5
      else if mt = 0x58 then Some 4
      else if mt = 0x59 then Some 2
      else None)"

text \<open>
  A track for the examples: a note-on, an empty text meta event, and an event that
  starts with a data byte.
\<close>

definition cleared_track :: MidiFileStream where
  "cleared_track =
     in_chunk [0x00, 0x90, 0x40, 0x7F, 0x00, 0xFF, 0x01, 0x00, 0x00, 0x41, 0x00] 11"

text \<open>
  A track for the examples: a text meta event that declares 200 bytes (the length is
  the variable-length number 0x81 0x48), followed by an end-of-track event.
\<close>

definition long_text_track :: MidiFileStream where
  "long_text_track =
     in_chunk ([0x00, 0xFF, 0x01, 0x81, 0x48] @ replicate 200 0x41 @ [0x00, 0xFF, 0x2F, 0x00]) 209"

text \<open>
  The number that two bytes encode big-endian, and the steps of a big-endian number of
  up to four bytes in a \<open>long\<close>.
\<close>

definition be16 :: "byte \<Rightarrow> byte \<Rightarrow> int" where
  "be16 hi lo = 256 * uint hi + uint lo"

definition be_step :: "c_long \<Rightarrow> byte \<Rightarrow> c_long" where
  "be_step r b = push_bit 8 r OR ucast b"

text \<open>
  Header chunks for the examples: format 1, two tracks, 480 ticks per beat; and the same
  with the division 0xE728 (SMPTE, 25 frames per second, 40 ticks per frame).
\<close>

definition good_header :: "byte list" where
  "good_header =
     [0x4D, 0x54, 0x68, 0x64, 0x00, 0x00, 0x00, 0x06, 0x00, 0x01, 0x00, 0x02, 0x01, 0xE0,
      0x4D, 0x54, 0x72, 0x6B]"

definition smpte_header :: "byte list" where
  "smpte_header =
     [0x4D, 0x54, 0x68, 0x64, 0x00, 0x00, 0x00, 0x06, 0x00, 0x01, 0x00, 0x02, 0xE7, 0x28,
      0x4D, 0x54, 0x72, 0x6B]"

text \<open>
  \<open>within_budget s s'\<close>: the object \<open>s'\<close> is \<open>s\<close> after some bytes of the stream have
  been read inside the chunk.  The stream of \<open>s'\<close> is the stream of \<open>s\<close> without its first
  \<open>k\<close> bytes, the bytes-remaining counter has gone down by at least \<open>k\<close>, and it has not
  gone below 0; when it was negative already, it has not changed (and \<open>k\<close> is 0).
\<close>

definition within_budget :: "MidiFileStream \<Rightarrow> MidiFileStream \<Rightarrow> bool" where
  "within_budget s s' =
     (let k = length (pStream s) - length (pStream s')
      in length (pStream s') \<le> length (pStream s) \<and>
         pStream s' = drop k (pStream s) \<and>
         int k \<le> sint (bytesLeft s) - sint (bytesLeft s') \<and>
         (if 0 \<le> sint (bytesLeft s) then 0 \<le> sint (bytesLeft s')
          else bytesLeft s' = bytesLeft s))"

section \<open>Bytes, words and the byte budget\<close>



lemma uint_byte_bound: "uint (b::byte) < 256"
  using uint_bounded [of b] by simp

lemma sint_ucast_byte: "sint (ucast (b::byte) :: c_int) = uint b"
proof -
  have "- (2 ^ 15) \<le> uint b"
    by (rule order_trans [OF _ uint_nonnegative]) simp
  moreover have "uint b < 2 ^ 15"
    using uint_byte_bound [of b] by simp
  ultimately have "signed_take_bit 15 (uint b) = uint b"
    by (rule signed_take_bit_int_eq_self)
  then show ?thesis
    by (simp add: signed_ucast_eq)
qed

lemma ucast_byte_not_neg: "\<not> ((ucast (b::byte) :: c_int) <s 0)"
  by (simp add: word_sless_alt sint_ucast_byte)

lemma bit_128: "bit (128 :: int) n \<longleftrightarrow> n = 7"
  using bit_exp_iff [where ?'a = int, of 7 n] by auto

lemma bit_127: "bit (127 :: int) n \<longleftrightarrow> n < 7"
  using bit_mask_iff [where ?'a = int, of 7 n] by (auto simp add: mask_eq_exp_minus_1)

lemma and80_int: "((w::c_int) AND 0x80 = 0x80) = bit w 7"
  by (subst bit_eq_iff) (auto simp add: bit_simps bit_128 dest!: spec [where x = 7])

lemma and80_0_int: "((w::c_int) AND 0x80 = 0) = (\<not> bit w 7)"
  by (subst bit_eq_iff) (auto simp add: bit_simps bit_128 dest!: spec [where x = 7])

lemma bit7_ucast_byte: "bit (ucast (b::byte) :: c_int) 7 = bit b 7"
  by (simp add: bit_simps)

lemma scast_data7: "(scast ((ucast (b::byte) :: c_int) AND 0x7F) :: c_long) = ucast (b AND 0x7F)"
  by (rule bit_eqI) (auto simp add: bit_simps bit_127)

lemma sint_dec: "0 <s (w::c_long) \<Longrightarrow> sint (w - 1) = sint w - 1"
proof -
  assume "0 <s w"
  then have pos: "0 < sint w" by (simp add: word_sless_alt)
  have "sint w < 2 ^ 31" using sint_less [of w] by simp
  with pos have "signed_take_bit 31 (sint w - 1) = sint w - 1"
    by (intro signed_take_bit_int_eq_self) simp_all
  then show ?thesis by (simp add: sint_word_diff)
qed

lemma readChunkByte_neg: "bytesLeft s \<le>s 0 \<Longrightarrow> readChunkByte s = (- 1, s)"
  by (simp add: readChunkByte_def)

lemma readChunkByte_Nil:
  "0 <s bytesLeft s \<Longrightarrow> pStream s = [] \<Longrightarrow>
   readChunkByte s = (- 1, s\<lparr>bytesLeft := bytesLeft s - 1\<rparr>)"
  by (simp add: readChunkByte_def stream_read_def word_sless_alt word_sle_eq)

lemma readChunkByte_Cons:
  "0 <s bytesLeft s \<Longrightarrow> pStream s = b # bs \<Longrightarrow>
   readChunkByte s = (ucast b, s\<lparr>bytesLeft := bytesLeft s - 1, pStream := bs\<rparr>)"
  by (simp add: readChunkByte_def stream_read_def word_sless_alt word_sle_eq)

lemma consume_0: "consume 0 s = s"
  by (simp add: consume_def)

lemma consume_Suc:
  "pStream s = b # bs \<Longrightarrow>
   consume (Suc n) s = consume n (s\<lparr>bytesLeft := bytesLeft s - 1, pStream := bs\<rparr>)"
  by (simp add: consume_def)

lemma rvl_loop_cont:
  "nb \<le> 4 \<Longrightarrow> 0 <s bytesLeft s \<Longrightarrow> pStream s = b # bs \<Longrightarrow> bit b 7 \<Longrightarrow>
   readVariableLong_loop nb r s =
   readVariableLong_loop (nb + 1) (vlq_step r b) (s\<lparr>bytesLeft := bytesLeft s - 1, pStream := bs\<rparr>)"
  by (subst readVariableLong_loop.simps)
    (simp add: readChunkByte_Cons ucast_byte_not_neg and80_int bit7_ucast_byte scast_data7 vlq_step_def)

lemma rvl_loop_last:
  "nb \<le> 4 \<Longrightarrow> 0 <s bytesLeft s \<Longrightarrow> pStream s = b # bs \<Longrightarrow> \<not> bit b 7 \<Longrightarrow>
   readVariableLong_loop nb r s =
   (vlq_step r b, s\<lparr>bytesLeft := bytesLeft s - 1, pStream := bs\<rparr>)"
  by (subst readVariableLong_loop.simps)
    (simp add: readChunkByte_Cons ucast_byte_not_neg and80_int bit7_ucast_byte scast_data7 vlq_step_def)

lemma rvl_loop_seq:
  "pStream s = cs @ t # rest \<Longrightarrow> \<forall>c\<in>set cs. bit c 7 \<Longrightarrow> \<not> bit t 7 \<Longrightarrow>
   nb + length cs \<le> 4 \<Longrightarrow> int (length cs) < sint (bytesLeft s) \<Longrightarrow>
   readVariableLong_loop nb r s = (foldl vlq_step r (cs @ [t]), consume (Suc (length cs)) s)"
proof (induction cs arbitrary: nb r s)
  case Nil
  then have "0 <s bytesLeft s" by (simp add: word_sless_alt)
  with Nil show ?case
    by (simp add: rvl_loop_last consume_Suc consume_0)
next
  case (Cons c cs)
  from Cons.prems have pos: "0 <s bytesLeft s" by (simp add: word_sless_alt)
  let ?s1 = "s\<lparr>bytesLeft := bytesLeft s - 1, pStream := cs @ t # rest\<rparr>"
  have "readVariableLong_loop nb r s = readVariableLong_loop (nb + 1) (vlq_step r c) ?s1"
    using Cons.prems pos by (intro rvl_loop_cont) simp_all
  also have "\<dots> = (foldl vlq_step (vlq_step r c) (cs @ [t]), consume (Suc (length cs)) ?s1)"
    using Cons.prems pos by (intro Cons.IH) (simp_all add: sint_dec)
  finally show ?case
    using Cons.prems by (simp add: consume_Suc)
qed

lemma vlq_cont_bit7: "c \<in> set (vlq_cont y) \<Longrightarrow> bit c 7"
  by (induction y rule: vlq_cont.induct)
     (subst (asm) vlq_cont.simps, auto simp add: bit_simps bit_128 split: if_splits)

lemma vlq_last_bit7: "\<not> bit (of_nat (x mod 128) :: byte) 7"
proof -
  have "x mod 128 = take_bit 7 x" by (simp add: take_bit_eq_mod)
  then show ?thesis by (simp add: bit_simps)
qed

lemma vlq_cont_length: "y < 128 ^ k \<Longrightarrow> length (vlq_cont y) \<le> k"
proof (induction k arbitrary: y)
  case 0
  then show ?case by (simp add: vlq_cont.simps)
next
  case (Suc k)
  then have "y div 128 < 128 ^ k" by (simp add: less_mult_imp_div_less mult.commute)
  then have "length (vlq_cont (y div 128)) \<le> k" by (rule Suc.IH)
  then show ?case by (subst vlq_cont.simps) simp
qed

lemma vlq_step_cont: "vlq_step (of_nat (x div 128)) (of_nat (x mod 128) OR 0x80) = of_nat x"
proof -
  have "x mod 128 = take_bit 7 x" "x div 128 = drop_bit 7 x"
    by (simp_all add: take_bit_eq_mod drop_bit_eq_div)
  then show ?thesis
    unfolding vlq_step_def
  proof (intro bit_eqI)
    fix n
    assume "x mod 128 = take_bit 7 x" "x div 128 = drop_bit 7 x"
    then show "bit (push_bit 7 (word_of_nat (x div 128) :: c_long) OR ucast (((word_of_nat (x mod 128) :: byte) OR 0x80) AND 0x7F)) n
      = bit (word_of_nat x :: c_long) n"
      by (cases "7 \<le> n") (auto simp add: bit_simps bit_127 bit_128)
  qed
qed

lemma vlq_step_last: "vlq_step (of_nat (x div 128)) (of_nat (x mod 128)) = of_nat x"
proof -
  have "x mod 128 = take_bit 7 x" "x div 128 = drop_bit 7 x"
    by (simp_all add: take_bit_eq_mod drop_bit_eq_div)
  then show ?thesis
    unfolding vlq_step_def
  proof (intro bit_eqI)
    fix n
    assume "x mod 128 = take_bit 7 x" "x div 128 = drop_bit 7 x"
    then show "bit (push_bit 7 (word_of_nat (x div 128) :: c_long) OR ucast ((word_of_nat (x mod 128) :: byte) AND 0x7F)) n
      = bit (word_of_nat x :: c_long) n"
      by (cases "7 \<le> n") (auto simp add: bit_simps bit_127 bit_128)
  qed
qed

lemma vlq_cont_value: "foldl vlq_step 0 (vlq_cont y) = of_nat y"
  by (induction y rule: vlq_cont.induct)
     (subst vlq_cont.simps, simp add: vlq_step_cont)

lemma vlq_encode_value: "foldl vlq_step 0 (vlq_encode x) = of_nat x"
  by (simp add: vlq_encode_def vlq_cont_value vlq_step_last)


lemma rvl_loop_reject:
  "nb + length cs = 5 \<Longrightarrow> pStream s = cs @ rest \<Longrightarrow> \<forall>c\<in>set cs. bit c 7 \<Longrightarrow>
   fst (readVariableLong_loop nb r s) = - 1"
proof (induction cs arbitrary: nb r s)
  case Nil
  then show ?case by (subst readVariableLong_loop.simps) simp
next
  case (Cons c cs)
  show ?case
  proof (cases "bytesLeft s \<le>s 0")
    case True
    then show ?thesis
      by (subst readVariableLong_loop.simps) (simp add: readChunkByte_neg)
  next
    case False
    then have pos: "0 <s bytesLeft s" by (simp add: word_sless_alt word_sle_eq)
    let ?s1 = "s\<lparr>bytesLeft := bytesLeft s - 1, pStream := cs @ rest\<rparr>"
    have "readVariableLong_loop nb r s = readVariableLong_loop (nb + 1) (vlq_step r c) ?s1"
      using Cons.prems pos by (intro rvl_loop_cont) simp_all
    moreover have "fst (readVariableLong_loop (nb + 1) (vlq_step r c) ?s1) = - 1"
      using Cons.prems by (intro Cons.IH) simp_all
    ultimately show ?thesis by simp
  qed
qed

lemma sint_of_nat_28: "x < 2 ^ 28 \<Longrightarrow> sint (word_of_nat x :: c_long) = int x"
proof -
  assume "x < 2 ^ 28"
  then have "int x < 2 ^ 31" by (simp add: order_less_trans [of "int x" "2 ^ 28"])
  then have "signed_take_bit 31 (int x) = int x"
    by (intro signed_take_bit_int_eq_self) simp_all
  then show ?thesis by (simp add: signed_of_nat)
qed

lemma vlq_encode_length: "x < 2 ^ 28 \<Longrightarrow> length (vlq_encode x) \<le> 4"
proof -
  assume "x < 2 ^ 28"
  then have "x div 128 < 128 ^ 3" by simp
  then have "length (vlq_cont (x div 128)) \<le> 3" by (rule vlq_cont_length)
  then show ?thesis by (simp add: vlq_encode_def)
qed

lemma vlq_encode_examples:
  "vlq_encode 0 = [0x00]"
  "vlq_encode 127 = [0x7F]"
  "vlq_encode 128 = [0x81, 0x00]"
  "vlq_encode 200 = [0x81, 0x48]"
  "vlq_encode 16383 = [0xFF, 0x7F]"
  "vlq_encode 268435455 = [0xFF, 0xFF, 0xFF, 0x7F]"
  by (simp_all add: vlq_encode_def vlq_cont.simps)


section \<open>The variable-length decoder\<close>

text \<open>
  Where the decoder does what the format asks: every number below \<open>2 ^ 28\<close> is given
  back from its variable-length encoding, when the chunk holds the bytes of the encoding,
  and exactly the bytes of the encoding are consumed; a stream whose next five bytes all
  have bit 7 set is rejected with -1, whatever the budget is.
\<close>

lemma readVariableLong_roundtrip:
  assumes x: "x < 2 ^ 28" and str: "pStream s = vlq_encode x @ rest"
    and bud: "int (length (vlq_encode x)) \<le> sint (bytesLeft s)"
  shows "readVariableLong s = (word_of_nat x, consume (length (vlq_encode x)) s)"
    and "sint (fst (readVariableLong s)) = int x"
proof -
  let ?cs = "vlq_cont (x div 128)"
  let ?t = "word_of_nat (x mod 128) :: byte"
  have len: "length ?cs \<le> 3" using x vlq_encode_length [of x] by (simp add: vlq_encode_def)
  have "readVariableLong_loop 0 0 s = (foldl vlq_step 0 (?cs @ [?t]), consume (Suc (length ?cs)) s)"
    using str bud len by (intro rvl_loop_seq [where rest = rest])
      (simp_all add: vlq_encode_def vlq_cont_bit7 vlq_last_bit7)
  then show r: "readVariableLong s = (word_of_nat x, consume (length (vlq_encode x)) s)"
    using vlq_encode_value [of x] by (simp add: readVariableLong_def vlq_encode_def)
  show "sint (fst (readVariableLong s)) = int x"
    using x by (simp add: r sint_of_nat_28)
qed

lemma readVariableLong_five_continuations:
  "length cs = 5 \<Longrightarrow> \<forall>c\<in>set cs. bit c 7 \<Longrightarrow> pStream s = cs @ rest \<Longrightarrow>
   fst (readVariableLong s) = - 1"
  unfolding readVariableLong_def by (intro rvl_loop_reject [where cs = cs and rest = rest]) simp_all

lemma readVariableLong_examples:
  "readVariableLong (in_chunk [0x81, 0x48, 0x90] 10) = (200, in_chunk [0x90] 8)"
  "fst (readVariableLong (in_chunk [0x81, 0x80, 0x80, 0x80, 0x80, 0x00] 10)) = - 1"
  using readVariableLong_roundtrip(1) [of 200 "in_chunk [0x81, 0x48, 0x90] 10" "[0x90]"]
    readVariableLong_five_continuations [of "[0x81, 0x80, 0x80, 0x80, 0x80]"
       "in_chunk [0x81, 0x80, 0x80, 0x80, 0x80, 0x00] 10" "[0x00]"]
  by (simp_all add: vlq_encode_examples in_chunk_def consume_def)

text \<open>
  C1.  The specification has \<open>readVariableLong\<close> give an error, and no wrapped value, for
  every number that takes more than four bytes, that is more than 28 bits.  The source
  tests \<open>numBytes > 4\<close> before the read, so a fifth byte is still read and shifted in: a
  number of four bytes with bit 7 set and a last byte is returned, its 35 bits pushed
  through the 32 bits of the \<open>long\<close>.  The bytes \<open>81 80 80 80 00\<close> give \<open>2 ^ 28\<close>, which is
  above every number of the format; \<open>90 80 80 80 05\<close> give 5, the upper bits lost;
  \<open>88 80 80 80 00\<close> give \<open>- (2 ^ 31)\<close>, neither a non-negative number nor -1.  The
  source is at odds with itself here: its comment promises a non-negative number or -1,
  and its message at the rejection reads
  \<open>variable number not terminated after 4 bytes\<close>.
\<close>

theorem readVariableLong_five_byte_number:
  "readVariableLong (in_chunk [0x81, 0x80, 0x80, 0x80, 0x00] 5) = (0x10000000, in_chunk [] 0) \<and>
   readVariableLong (in_chunk [0x90, 0x80, 0x80, 0x80, 0x05] 5) = (5, in_chunk [] 0) \<and>
   sint (fst (readVariableLong (in_chunk [0x88, 0x80, 0x80, 0x80, 0x00] 5))) = - (2 ^ 31)"
proof (intro conjI)
  have "readVariableLong_loop 0 0 (in_chunk [0x81, 0x80, 0x80, 0x80, 0x00] 5) =
      (foldl vlq_step 0 ([0x81, 0x80, 0x80, 0x80] @ [0x00]),
       consume (Suc (length [0x81 :: byte, 0x80, 0x80, 0x80]))
         (in_chunk [0x81, 0x80, 0x80, 0x80, 0x00] 5))"
    by (rule rvl_loop_seq [where rest = "[]"]) (simp_all add: in_chunk_def)
  then show "readVariableLong (in_chunk [0x81, 0x80, 0x80, 0x80, 0x00] 5) =
      (0x10000000, in_chunk [] 0)"
    by (simp add: readVariableLong_def vlq_step_def in_chunk_def consume_def)
  have "readVariableLong_loop 0 0 (in_chunk [0x90, 0x80, 0x80, 0x80, 0x05] 5) =
      (foldl vlq_step 0 ([0x90, 0x80, 0x80, 0x80] @ [0x05]),
       consume (Suc (length [0x90 :: byte, 0x80, 0x80, 0x80]))
         (in_chunk [0x90, 0x80, 0x80, 0x80, 0x05] 5))"
    by (rule rvl_loop_seq [where rest = "[]"]) (simp_all add: in_chunk_def)
  then show "readVariableLong (in_chunk [0x90, 0x80, 0x80, 0x80, 0x05] 5) = (5, in_chunk [] 0)"
    by (simp add: readVariableLong_def vlq_step_def in_chunk_def consume_def)
  have "readVariableLong_loop 0 0 (in_chunk [0x88, 0x80, 0x80, 0x80, 0x00] 5) =
      (foldl vlq_step 0 ([0x88, 0x80, 0x80, 0x80] @ [0x00]),
       consume (Suc (length [0x88 :: byte, 0x80, 0x80, 0x80]))
         (in_chunk [0x88, 0x80, 0x80, 0x80, 0x00] 5))"
    by (rule rvl_loop_seq [where rest = "[]"]) (simp_all add: in_chunk_def)
  then show "sint (fst (readVariableLong (in_chunk [0x88, 0x80, 0x80, 0x80, 0x00] 5))) = - (2 ^ 31)"
    by (simp add: readVariableLong_def vlq_step_def)
qed

section \<open>The loops of readVariableBytes\<close>

lemma ucast_ucast_byte: "(ucast (ucast (b::byte) :: c_int) :: c_char) = b"
  by (rule bit_eqI) (auto simp add: bit_simps)

lemma sint_long_range: "- (2 ^ 31) \<le> sint (w::c_long)" "sint (w::c_long) < 2 ^ 31"
  using sint_greater_eq [of w] sint_less [of w] by simp_all

lemma sint_sub_of_nat:
  "int n \<le> sint (w::c_long) \<Longrightarrow> sint (w - of_nat n) = sint w - int n"
proof -
  assume a: "int n \<le> sint w"
  have r: "sint w < 2 ^ 31" by (rule sint_long_range)
  with a have n: "int n < 2 ^ 31" by linarith
  then have "signed_take_bit 31 (int n) = int n"
    by (intro signed_take_bit_int_eq_self) simp_all
  then have sn: "sint (word_of_nat n :: c_long) = int n" by (simp add: signed_of_nat)
  have "signed_take_bit 31 (sint w - int n) = sint w - int n"
    using a r by (intro signed_take_bit_int_eq_self) simp_all
  then show ?thesis by (simp add: sint_word_diff sn)
qed

lemma bytesLeft_consume: "bytesLeft (consume n s) = bytesLeft s - of_nat n"
  and pStream_consume: "pStream (consume n s) = drop n (pStream s)"
  by (simp_all add: consume_def)

lemma sint_consume:
  "int n \<le> sint (bytesLeft s) \<Longrightarrow> sint (bytesLeft (consume n s)) = sint (bytesLeft s) - int n"
  by (simp add: bytesLeft_consume sint_sub_of_nat)

lemma consume_consume: "consume m (consume n s) = consume (n + m) s"
  by (simp add: consume_def add.commute)

lemma store_ok:
  "length bs = n \<Longrightarrow> pStream s = bs @ rest \<Longrightarrow> int n \<le> sint (bytesLeft s) \<Longrightarrow>
   i + n \<le> length buf \<Longrightarrow>
   readVariableBytes_store n i buf s = (True, take i buf @ bs @ drop (i + n) buf, consume n s)"
proof (induction bs arbitrary: n i buf s)
  case Nil
  then show ?case by (simp add: consume_0)
next
  case (Cons b bs)
  then obtain m where n: "n = Suc m" by (cases n) auto
  from Cons.prems n have pos: "0 <s bytesLeft s" by (simp add: word_sless_alt)
  let ?s1 = "s\<lparr>bytesLeft := bytesLeft s - 1, pStream := bs @ rest\<rparr>"
  have rd: "readChunkByte s = (ucast b, ?s1)"
    using Cons.prems pos by (intro readChunkByte_Cons) simp_all
  have "readVariableBytes_store m (Suc i) (buf[i := b]) ?s1 =
      (True, take (Suc i) (buf[i := b]) @ bs @ drop (Suc i + m) (buf[i := b]), consume m ?s1)"
    using Cons.prems n pos by (intro Cons.IH) (simp_all add: sint_dec)
  moreover have "take (Suc i) (buf[i := b]) = take i buf @ [b]"
    using Cons.prems n by (simp add: take_Suc_conv_app_nth)
  moreover have "consume m ?s1 = consume (Suc m) s"
    using Cons.prems by (simp add: consume_Suc)
  ultimately show ?case
    using n rd by (simp add: ucast_byte_not_neg ucast_ucast_byte)
qed

lemma skip_ok:
  "n \<le> length (pStream s) \<Longrightarrow> int n \<le> sint (bytesLeft s) \<Longrightarrow>
   skip_loop n s = (True, consume n s)"
proof (induction n arbitrary: s)
  case 0
  then show ?case by (simp add: consume_0)
next
  case (Suc n)
  then obtain b bs where st: "pStream s = b # bs" by (cases "pStream s") auto
  from Suc.prems have pos: "0 <s bytesLeft s" by (simp add: word_sless_alt)
  let ?s1 = "s\<lparr>bytesLeft := bytesLeft s - 1, pStream := bs\<rparr>"
  have rd: "readChunkByte s = (ucast b, ?s1)"
    using st pos by (rule readChunkByte_Cons [rotated])
  have "skip_loop n ?s1 = (True, consume n ?s1)"
    using Suc.prems st pos by (intro Suc.IH) (simp_all add: sint_dec)
  then show ?case
    using rd st by (simp add: ucast_byte_not_neg consume_Suc)
qed

lemma store_bounds:
  "readVariableBytes_store n i buf s = (ok, buf', s') \<Longrightarrow>
   length buf' = length buf \<and> drop (i + n) buf' = drop (i + n) buf"
proof (induction n arbitrary: i buf s)
  case 0
  then show ?case by simp
next
  case (Suc n)
  obtain bint s1 where rd: "readChunkByte s = (bint, s1)" by (cases "readChunkByte s")
  show ?case
  proof (cases "bint <s 0")
    case True
    with Suc.prems rd show ?thesis by simp
  next
    case False
    with Suc.prems rd
    have "readVariableBytes_store n (Suc i) (buf[i := ucast bint]) s1 = (ok, buf', s')" by simp
    then have "length buf' = length (buf[i := ucast bint]) \<and>
        drop (Suc i + n) buf' = drop (Suc i + n) (buf[i := ucast bint])"
      by (rule Suc.IH)
    then show ?thesis by simp
  qed
qed

lemma store_underrun:
  "0 < n \<Longrightarrow> sint (bytesLeft s) < int n \<or> length (pStream s) < n \<Longrightarrow>
   \<not> fst (readVariableBytes_store n i buf s)"
proof (induction n arbitrary: i buf s)
  case 0
  then show ?case by simp
next
  case (Suc n)
  show ?case
  proof (cases "bytesLeft s \<le>s 0")
    case True
    then show ?thesis by (simp add: readChunkByte_neg)
  next
    case False
    then have pos: "0 <s bytesLeft s" by (simp add: word_sless_alt word_sle_eq)
    then have pos': "0 < sint (bytesLeft s)" by (simp add: word_sless_alt)
    show ?thesis
    proof (cases "pStream s")
      case Nil
      with pos show ?thesis by (simp add: readChunkByte_Nil)
    next
      case (Cons b bs)
      let ?s1 = "s\<lparr>bytesLeft := bytesLeft s - 1, pStream := bs\<rparr>"
      have rd: "readChunkByte s = (ucast b, ?s1)"
        using pos Cons by (rule readChunkByte_Cons)
      have "\<not> fst (readVariableBytes_store n (Suc i) (buf[i := b]) ?s1)"
        using Suc.prems Cons pos pos' by (intro Suc.IH) (auto simp add: sint_dec)
      then show ?thesis using rd by (simp add: ucast_byte_not_neg ucast_ucast_byte)
    qed
  qed
qed

lemma skip_underrun:
  "0 < n \<Longrightarrow> sint (bytesLeft s) < int n \<or> length (pStream s) < n \<Longrightarrow>
   \<not> fst (skip_loop n s)"
proof (induction n arbitrary: s)
  case 0
  then show ?case by simp
next
  case (Suc n)
  show ?case
  proof (cases "bytesLeft s \<le>s 0")
    case True
    then show ?thesis by (simp add: readChunkByte_neg)
  next
    case False
    then have pos: "0 <s bytesLeft s" by (simp add: word_sless_alt word_sle_eq)
    then have pos': "0 < sint (bytesLeft s)" by (simp add: word_sless_alt)
    show ?thesis
    proof (cases "pStream s")
      case Nil
      with pos show ?thesis by (simp add: readChunkByte_Nil)
    next
      case (Cons b bs)
      let ?s1 = "s\<lparr>bytesLeft := bytesLeft s - 1, pStream := bs\<rparr>"
      have rd: "readChunkByte s = (ucast b, ?s1)"
        using pos Cons by (rule readChunkByte_Cons)
      have "\<not> fst (skip_loop n ?s1)"
        using Suc.prems Cons pos pos' by (intro Suc.IH) (auto simp add: sint_dec)
      then show ?thesis using rd by (simp add: ucast_byte_not_neg)
    qed
  qed
qed

lemma readVariableBytes_bounds:
  "readVariableBytes len buf s = (r, buf', s') \<Longrightarrow>
   length buf' = length buf \<and> drop 141 buf' = drop 141 buf"
proof -
  assume a: "readVariableBytes len buf s = (r, buf', s')"
  define trunc :: c_long where "trunc = (if 140 <s len then 140 else len)"
  define stored where "stored = nat (sint trunc)"
  have le: "stored \<le> 140"
    by (auto simp add: stored_def trunc_def word_sless_alt)
  obtain ok1 buf1 s1 where st: "readVariableBytes_store stored 0 (buf[0 := 0]) s = (ok1, buf1, s1)"
    by (cases "readVariableBytes_store stored 0 (buf[0 := 0]) s")
  from store_bounds [OF st]
  have b1: "length buf1 = length buf" "drop stored buf1 = drop stored (buf[0 := 0])" by simp_all
  have d1: "drop 141 buf1 = drop 141 buf"
  proof -
    have "drop 141 buf1 = drop (141 - stored) (drop stored buf1)" using le by simp
    also have "\<dots> = drop (141 - stored) (drop stored (buf[0 := 0]))" by (simp only: b1)
    also have "\<dots> = drop 141 buf" using le by simp
    finally show ?thesis .
  qed
  have d2: "drop 141 (buf1[stored := 0]) = drop 141 buf1" using le by simp
  from a st show ?thesis
    using b1 d1 d2
    by (auto simp add: readVariableBytes_def EV_BUFFER_SIZE_def Let_def trunc_def stored_def
        split: if_splits prod.splits)
qed

lemma drop_update_hd: "i < length xs \<Longrightarrow> (drop i xs)[0 := v] = v # drop (Suc i) xs"
  by (cases "drop i xs") (simp_all add: drop_Suc tl_drop [symmetric])

lemma readVariableBytes_unfold:
  "readVariableBytes len buf s =
     (case readVariableBytes_store (nat (sint (if 140 <s len then 140 else len))) 0 (buf[0 := 0]) s of
        (ok1, buf1, s1) \<Rightarrow>
          if \<not> ok1 then (- 1, buf1, s1)
          else
            (case skip_loop (nat (sint len) - nat (sint (if 140 <s len then 140 else len))) s1 of
               (ok2, s2) \<Rightarrow>
                 if \<not> ok2
                 then (- 1, buf1[nat (sint (if 140 <s len then 140 else len)) := 0], s2)
                 else (if 140 <s len then 140 else len,
                       buf1[nat (sint (if 140 <s len then 140 else len)) := 0], s2)))"
  unfolding readVariableBytes_def EV_BUFFER_SIZE_def Let_def
  by (simp split: prod.splits)

lemma readVariableBytes_ok:
  assumes len: "0 \<le>s len"
    and str: "nat (sint len) \<le> length (pStream s)"
    and bud: "sint len \<le> sint (bytesLeft s)"
    and buf: "length buf = 141"
  shows "readVariableBytes len buf s =
     (if 140 <s len then 140 else len,
      take (min 140 (nat (sint len))) (pStream s) @ 0 # drop (Suc (min 140 (nat (sint len)))) buf,
      consume (nat (sint len)) s)"
proof -
  define n where "n = nat (sint len)"
  define trunc :: c_long where "trunc = (if 140 <s len then 140 else len)"
  define stored where "stored = nat (sint trunc)"
  from len have n0: "0 \<le> sint len" by (simp add: word_sle_eq)
  have stored: "stored = min 140 n"
    using n0 by (auto simp add: stored_def trunc_def n_def word_sless_alt)
  define bs where "bs = take stored (pStream s)"
  have lenbs: "length bs = stored" using str stored by (simp add: bs_def n_def)
  have st: "readVariableBytes_store stored 0 (buf[0 := 0]) s =
      (True, take 0 (buf[0 := 0]) @ bs @ drop (0 + stored) (buf[0 := 0]), consume stored s)"
  proof (rule store_ok [where rest = "drop stored (pStream s)"])
    show "length bs = stored" by (rule lenbs)
    show "pStream s = bs @ drop stored (pStream s)" by (simp add: bs_def)
    show "int stored \<le> sint (bytesLeft s)" using bud n0 stored by (simp add: n_def)
    show "0 + stored \<le> length (buf[0 := 0])" using buf stored by simp
  qed
  have b2: "(bs @ drop stored (buf[0 := 0]))[stored := 0] = bs @ 0 # drop (Suc stored) buf"
  proof -
    have "stored < length (buf[0 := 0])" using buf stored by simp
    then have "(drop stored (buf[0 := 0]))[0 := 0] = 0 # drop (Suc stored) (buf[0 := 0])"
      by (rule drop_update_hd)
    then show ?thesis using lenbs by (simp add: list_update_append)
  qed
  have sk: "skip_loop (n - stored) (consume stored s) = (True, consume (n - stored) (consume stored s))"
  proof (rule skip_ok)
    show "n - stored \<le> length (pStream (consume stored s))"
      using str by (simp add: pStream_consume n_def)
    have "sint (bytesLeft (consume stored s)) = sint (bytesLeft s) - int stored"
      using bud n0 stored by (intro sint_consume) (simp add: n_def)
    then show "int (n - stored) \<le> sint (bytesLeft (consume stored s))"
      using bud n0 stored by (simp add: n_def)
  qed
  have cc: "consume (n - stored) (consume stored s) = consume n s"
    using stored by (simp add: consume_consume)
  have "readVariableBytes len buf s = (trunc, bs @ 0 # drop (Suc stored) buf, consume n s)"
    unfolding readVariableBytes_unfold
    using st sk b2 cc
    by (simp add: trunc_def [symmetric] stored_def [symmetric] n_def [symmetric])
  then show ?thesis
    by (simp add: trunc_def stored [symmetric] bs_def n_def [symmetric])
qed

lemma store_skip:
  "(case readVariableBytes_store n i buf s of (ok, buf', s') \<Rightarrow> (ok, s')) = skip_loop n s"
  by (induction n arbitrary: i buf s) (simp_all split: prod.splits)

lemma readVariableBytes_underrun:
  assumes len: "0 <s len"
    and short: "sint (bytesLeft s) < sint len \<or> length (pStream s) < nat (sint len)"
  shows "fst (readVariableBytes len buf s) = - 1"
proof -
  define n where "n = nat (sint len)"
  define trunc :: c_long where "trunc = (if 140 <s len then 140 else len)"
  define stored where "stored = nat (sint trunc)"
  from len have n0: "0 < sint len" by (simp add: word_sless_alt)
  have stored: "stored = min 140 n"
    using n0 by (auto simp add: stored_def trunc_def n_def word_sless_alt)
  have spos: "0 < stored" using stored n0 by (simp add: n_def)
  obtain ok1 buf1 s1 where st: "readVariableBytes_store stored 0 (buf[0 := 0]) s = (ok1, buf1, s1)"
    by (cases "readVariableBytes_store stored 0 (buf[0 := 0]) s")
  show ?thesis
  proof (cases ok1)
    case False
    with st show ?thesis
      unfolding readVariableBytes_unfold
      by (simp add: trunc_def [symmetric] stored_def [symmetric])
  next
    case True
    have enough: "int stored \<le> sint (bytesLeft s) \<and> stored \<le> length (pStream s)"
    proof (rule ccontr)
      assume "\<not> ?thesis"
      then have "sint (bytesLeft s) < int stored \<or> length (pStream s) < stored"
        by auto
      with spos have "\<not> fst (readVariableBytes_store stored 0 (buf[0 := 0]) s)"
        by (rule store_underrun)
      with st True show False by simp
    qed
    have s1: "s1 = consume stored s"
    proof -
      have "skip_loop stored s = (True, consume stored s)"
        using enough by (intro skip_ok) simp_all
      with store_skip [of stored 0 "buf[0 := 0]" s] st show ?thesis by simp
    qed
    have rest: "0 < n - stored \<and>
        (sint (bytesLeft s1) < int (n - stored) \<or> length (pStream s1) < n - stored)"
    proof -
      have "sint (bytesLeft s1) = sint (bytesLeft s) - int stored"
        unfolding s1 using enough by (intro sint_consume) simp
      moreover have "length (pStream s1) = length (pStream s) - stored"
        by (simp add: s1 pStream_consume)
      ultimately show ?thesis
        using short enough n0 stored unfolding n_def by arith
    qed
    then have "\<not> fst (skip_loop (n - stored) s1)"
      by (intro skip_underrun) blast+
    then obtain s2 where "skip_loop (n - stored) s1 = (False, s2)"
      by (cases "skip_loop (n - stored) s1") auto
    with st True show ?thesis
      unfolding readVariableBytes_unfold
      by (simp add: trunc_def [symmetric] stored_def [symmetric] n_def [symmetric])
  qed
qed

section \<open>The start of an event and the channel events\<close>

lemma readVariableLong_stream:
  assumes "is_vlq ds" "pStream s = ds @ rest" "int (length ds) \<le> sint (bytesLeft s)"
  shows "readVariableLong s = (vlq_value ds, consume (length ds) s)"
proof -
  from assms(1) have "ds \<noteq> []" by (simp add: is_vlq_def)
  then obtain cs t where ds: "ds = cs @ [t]" by (cases ds rule: rev_cases) auto
  from assms(1) have le: "length cs \<le> 4"
    and cont: "\<forall>c\<in>set cs. bit c 7" and lst: "\<not> bit t 7"
    by (simp_all add: is_vlq_def ds)
  have "readVariableLong_loop 0 0 s = (foldl vlq_step 0 (cs @ [t]), consume (Suc (length cs)) s)"
  proof (rule rvl_loop_seq [where rest = rest])
    show "pStream s = cs @ t # rest" using assms(2) by (simp add: ds)
    show "\<forall>c\<in>set cs. bit c 7" by (rule cont)
    show "\<not> bit t 7" by (rule lst)
    show "0 + length cs \<le> 4" using le by simp
    show "int (length cs) < sint (bytesLeft s)" using assms(3) by (simp add: ds)
  qed
  then show ?thesis
    by (simp add: readVariableLong_def vlq_value_def ds)
qed

lemma readChunkByte_stream:
  "pStream s = b # rest \<Longrightarrow> 0 < sint (bytesLeft s) \<Longrightarrow> readChunkByte s = (ucast b, consume 1 s)"
  by (simp add: readChunkByte_Cons word_sless_alt consume_def)

lemma readChunkByte_exhausted:
  "sint (bytesLeft s) \<le> 0 \<Longrightarrow> readChunkByte s = (- 1, s)"
  by (simp add: readChunkByte_neg word_sle_eq)

lemma is_vlq_encode: "x < 2 ^ 28 \<Longrightarrow> is_vlq (vlq_encode x)"
  using vlq_encode_length [of x]
  by (auto simp add: is_vlq_def vlq_encode_def vlq_last_bit7 vlq_cont_bit7)

lemma vlq_value_encode: "vlq_value (vlq_encode x) = word_of_nat x"
  by (simp add: vlq_value_def vlq_encode_value)

lemma readEvent_start:
  assumes vlq: "is_vlq ds" and nonneg: "\<not> vlq_value ds <s 0"
    and str: "pStream s = ds @ b # rest"
    and bud: "int (length ds) < sint (bytesLeft s)"
  shows "readEvent s =
     (let bint = (ucast b :: c_int);
          s3 = (consume (Suc (length ds)) s)\<lparr>eventType := ET_UNK, eventDeltaTicks := vlq_value ds\<rparr>
      in if bint = 0xF0 \<or> bint = 0xF7 then readEvent_sysex bint s3
         else if bint = 0xFF then readEvent_meta s3
         else readEvent_channel bint s3)"
proof -
  let ?s0 = "s\<lparr>eventType := ET_UNK\<rparr>"
  have rv: "readVariableLong ?s0 = (vlq_value ds, consume (length ds) ?s0)"
    using vlq str bud by (intro readVariableLong_stream [where rest = "b # rest"]) simp_all
  let ?s2 = "(consume (length ds) ?s0)\<lparr>eventDeltaTicks := vlq_value ds\<rparr>"
  have sb: "sint (bytesLeft ?s2) = sint (bytesLeft s) - int (length ds)"
    using bud by (simp add: bytesLeft_consume sint_sub_of_nat)
  have rc: "readChunkByte ?s2 = (ucast b, consume 1 ?s2)"
    using str bud sb by (intro readChunkByte_stream [where rest = rest]) (simp_all add: pStream_consume)
  have c: "consume (Suc 0) ?s2 =
      (consume (Suc (length ds)) s)\<lparr>eventType := ET_UNK, eventDeltaTicks := vlq_value ds\<rparr>"
    by (simp add: consume_def)
  show ?thesis
    using nonneg by (simp add: readEvent_def rv rc c ucast_byte_not_neg Let_def)
qed

lemma ucast_byte_inj: "((ucast (b::byte) :: c_int) = ucast (c::byte)) = (b = c)"
proof
  assume "(ucast b :: c_int) = ucast c"
  then have "(ucast (ucast b :: c_int) :: byte) = ucast (ucast c :: c_int)" by simp
  then show "b = c" by (simp only: ucast_ucast_byte)
qed simp

lemma ucast_byte_eq_F0: "((ucast (b::byte) :: c_int) = 0xF0) = (b = 0xF0)"
  using ucast_byte_inj [of b "0xF0"] by simp

lemma ucast_byte_eq_F7: "((ucast (b::byte) :: c_int) = 0xF7) = (b = 0xF7)"
  using ucast_byte_inj [of b "0xF7"] by simp

lemma ucast_byte_eq_FF: "((ucast (b::byte) :: c_int) = 0xFF) = (b = 0xFF)"
  using ucast_byte_inj [of b "0xFF"] by simp

lemma ucast_byte_neq_m1: "(ucast (b::byte) :: c_int) \<noteq> - 1"
  using ucast_byte_not_neg [of b] by (auto simp add: word_sless_alt)

lemma code_of_status: "(ucast (signed_drop_bit 4 (ucast (st::byte) :: c_int)) :: c_char) = drop_bit 4 st"
  by (rule bit_eqI) (auto simp add: bit_simps)

lemma bit_15: "bit (15 :: int) n \<longleftrightarrow> n < 4"
  using bit_mask_iff [where ?'a = int, of 4 n] by (auto simp add: mask_eq_exp_minus_1)

lemma chan_of_status: "(ucast (st::byte) :: c_int) AND 0x0F = ucast (st AND 0x0F)"
  by (rule bit_eqI) (auto simp add: bit_simps bit_15)

lemma scast_code: "(scast (drop_bit 4 (st::byte) :: c_char) :: c_int) = ucast (drop_bit 4 st :: byte)"
  by (rule bit_eqI) (auto simp add: bit_simps min_def dest: bit_imp_le_length)

lemma code_is_C: "((scast (drop_bit 4 (st::byte) :: c_char) :: c_int) = 0xC) = (drop_bit 4 st = 0xC)"
  using ucast_byte_inj [of "drop_bit 4 st" "0xC"] by (simp add: scast_code)

lemma code_is_D: "((scast (drop_bit 4 (st::byte) :: c_char) :: c_int) = 0xD) = (drop_bit 4 st = 0xD)"
  using ucast_byte_inj [of "drop_bit 4 st" "0xD"] by (simp add: scast_code)

lemma channel_param2_one:
  "one_param st \<Longrightarrow> code (channel (eventData s)) = drop_bit 4 st \<Longrightarrow>
   channel_param2 s =
   (eventType s,
    s\<lparr>eventData := (eventData s)\<lparr>channel := (channel (eventData s))\<lparr>param2 := 0\<rparr>\<rparr>\<rparr>)"
  by (simp add: channel_param2_def one_param_def code_is_C code_is_D ret_def)

lemma channel_param2_two:
  "\<not> one_param st \<Longrightarrow> code (channel (eventData s)) = drop_bit 4 st \<Longrightarrow>
   pStream s = p # rest \<Longrightarrow> 0 < sint (bytesLeft s) \<Longrightarrow>
   channel_param2 s =
   (eventType s,
    (consume 1 s)\<lparr>eventData := (eventData s)
       \<lparr>channel := (channel (eventData s))\<lparr>param2 := ucast p\<rparr>\<rparr>\<rparr>)"
  by (simp add: channel_param2_def one_param_def code_is_C code_is_D ret_def
      readChunkByte_stream ucast_byte_not_neg consume_def)

lemma readEvent_channel_explicit:
  assumes "bit (st::byte) 7" "pStream s = p # rest" "0 < sint (bytesLeft s)"
  shows "readEvent_channel (ucast st) s =
     channel_param2 ((consume 1 s)\<lparr>eventType := ET_CHANNEL, runningStatus := ucast st,
        eventData := (eventData s)\<lparr>channel := (channel (eventData s))
          \<lparr>code := drop_bit 4 st, chan := ucast (st AND 0x0F), param1 := ucast p\<rparr>\<rparr>\<rparr>)"
proof -
  let ?s1 = "s\<lparr>eventType := ET_CHANNEL\<rparr>"
  let ?s2 = "?s1\<lparr>eventData := (eventData ?s1)
                      \<lparr>channel := (channel (eventData ?s1))
                         \<lparr>code := ucast (signed_drop_bit 4 (ucast st :: c_int)),
                          chan := (ucast st :: c_int) AND 0x0F\<rparr>\<rparr>,
                      runningStatus := ucast st\<rparr>"
  have rc: "readChunkByte ?s2 = (ucast p, consume 1 ?s2)"
    using assms by (intro readChunkByte_stream [where rest = rest]) simp_all
  show ?thesis
    using assms(1) rc
    by (cases s) (simp add: readEvent_channel_def Let_def and80_0_int bit7_ucast_byte
        ucast_byte_not_neg code_of_status chan_of_status consume_def)
qed

lemma readEvent_channel_running:
  assumes "\<not> bit (q::byte) 7" "bit (runningStatus s) 7"
  shows "readEvent_channel (ucast q) s =
     channel_param2 (s\<lparr>eventType := ET_CHANNEL,
        eventData := (eventData s)\<lparr>channel := (channel (eventData s))
          \<lparr>code := ucast (signed_drop_bit 4 (runningStatus s)),
           chan := runningStatus s AND 0x0F, param1 := ucast q\<rparr>\<rparr>\<rparr>)"
  using assms
  by (simp add: readEvent_channel_def Let_def and80_0_int bit7_ucast_byte ucast_byte_neq_m1)

lemma readEvent_channel_inactive:
  assumes "\<not> bit (q::byte) 7" "\<not> bit (runningStatus s) 7"
  shows "readEvent_channel (ucast q) s = (ET_UNK, s\<lparr>eventType := ET_UNK\<rparr>)"
  using assms
  by (simp add: readEvent_channel_def Let_def and80_0_int bit7_ucast_byte fail_ev_def ret_def)

lemma sint_consume_state:
  "int n \<le> sint (bytesLeft s) \<Longrightarrow> bytesLeft t = bytesLeft (consume n s) \<Longrightarrow>
   sint (bytesLeft t) = sint (bytesLeft s) - int n"
  by (simp add: sint_consume)

lemma readEvent_channel_first:
  assumes vlq: "is_vlq ds" and nonneg: "\<not> vlq_value ds <s 0"
    and st: "bit st 7" "st \<noteq> 0xF0" "st \<noteq> 0xF7" "st \<noteq> 0xFF"
    and ps: "length ps = (if one_param st then 1 else 2)"
    and str: "pStream s = ds @ st # ps @ rest"
    and bud: "int (length ds + 1 + length ps) \<le> sint (bytesLeft s)"
  shows "readEvent s =
     (ET_CHANNEL,
      (consume (length ds + 1 + length ps) s)
        \<lparr>eventType := ET_CHANNEL, eventDeltaTicks := vlq_value ds, runningStatus := ucast st,
         eventData := (eventData s)\<lparr>channel := (channel (eventData s))
           \<lparr>code := drop_bit 4 st, chan := ucast (st AND 0x0F), param1 := ucast (ps ! 0),
            param2 := (if one_param st then 0 else ucast (ps ! 1))\<rparr>\<rparr>\<rparr>)"
proof -
  let ?s3 = "(consume (Suc (length ds)) s)\<lparr>eventType := ET_UNK, eventDeltaTicks := vlq_value ds\<rparr>"
  from ps obtain p ps' where psc: "ps = p # ps'" by (cases ps) (auto split: if_splits)
  have start: "readEvent s = readEvent_channel (ucast st) ?s3"
    using vlq nonneg str bud st
    by (subst readEvent_start [where ds = ds and b = st and rest = "ps @ rest"])
       (simp_all add: Let_def ucast_byte_eq_F0 ucast_byte_eq_F7 ucast_byte_eq_FF)
  have b3: "sint (bytesLeft ?s3) = sint (bytesLeft s) - int (Suc (length ds))"
    using bud by (intro sint_consume_state) simp_all
  let ?s4 = "(consume 1 ?s3)\<lparr>eventType := ET_CHANNEL, runningStatus := ucast st,
        eventData := (eventData ?s3)\<lparr>channel := (channel (eventData ?s3))
          \<lparr>code := drop_bit 4 st, chan := ucast (st AND 0x0F), param1 := ucast p\<rparr>\<rparr>\<rparr>"
  have chan: "readEvent_channel (ucast st) ?s3 = channel_param2 ?s4"
    using st(1) str bud b3 psc
    by (intro readEvent_channel_explicit [where rest = "ps' @ rest"]) (simp_all add: pStream_consume)
  have b4: "sint (bytesLeft ?s4) = sint (bytesLeft s) - int (Suc (Suc (length ds)))"
    using bud psc by (intro sint_consume_state) (simp_all add: consume_def)
  show ?thesis
  proof (cases "one_param st")
    case True
    with ps psc have "ps' = []" by simp
    moreover have "channel_param2 ?s4 = (eventType ?s4,
      ?s4\<lparr>eventData := (eventData ?s4)\<lparr>channel := (channel (eventData ?s4))\<lparr>param2 := 0\<rparr>\<rparr>\<rparr>)"
      using True by (intro channel_param2_one [where st = st]) simp_all
    ultimately show ?thesis
      using True psc unfolding start chan
      by (cases s) (simp add: consume_def)
  next
    case False
    with ps psc obtain p2 where ps': "ps' = [p2]" by (cases ps') auto
    have "channel_param2 ?s4 = (eventType ?s4,
      (consume 1 ?s4)\<lparr>eventData := (eventData ?s4)
        \<lparr>channel := (channel (eventData ?s4))\<lparr>param2 := ucast p2\<rparr>\<rparr>\<rparr>)"
      using False str psc ps' bud b4
      by (intro channel_param2_two [where st = st and rest = rest]) (simp_all add: pStream_consume)
    then show ?thesis
      using False psc ps' unfolding start chan
      by (cases s) (simp add: consume_def)
  qed
qed

lemma data_byte_not_status:
  "\<not> bit (q::byte) 7 \<Longrightarrow> q \<noteq> 0xF0 \<and> q \<noteq> 0xF7 \<and> q \<noteq> 0xFF"
  by auto

lemma readEvent_channel_second:
  assumes vlq: "is_vlq ds" and nonneg: "\<not> vlq_value ds <s 0"
    and q: "\<not> bit q 7"
    and rs: "runningStatus s = ucast st" "bit st 7"
    and qs: "length qs = (if one_param st then 0 else 1)"
    and str: "pStream s = ds @ q # qs @ rest"
    and bud: "int (length ds + 1 + length qs) \<le> sint (bytesLeft s)"
  shows "readEvent s =
     (ET_CHANNEL,
      (consume (length ds + 1 + length qs) s)
        \<lparr>eventType := ET_CHANNEL, eventDeltaTicks := vlq_value ds,
         eventData := (eventData s)\<lparr>channel := (channel (eventData s))
           \<lparr>code := drop_bit 4 st, chan := ucast (st AND 0x0F), param1 := ucast q,
            param2 := (if one_param st then 0 else ucast (qs ! 0))\<rparr>\<rparr>\<rparr>)"
proof -
  let ?s3 = "(consume (Suc (length ds)) s)\<lparr>eventType := ET_UNK, eventDeltaTicks := vlq_value ds\<rparr>"
  have start: "readEvent s = readEvent_channel (ucast q) ?s3"
    using vlq nonneg str bud data_byte_not_status [OF q]
    by (subst readEvent_start [where ds = ds and b = q and rest = "qs @ rest"])
       (simp_all add: Let_def ucast_byte_eq_F0 ucast_byte_eq_F7 ucast_byte_eq_FF)
  have b3: "sint (bytesLeft ?s3) = sint (bytesLeft s) - int (Suc (length ds))"
    using bud by (intro sint_consume_state) simp_all
  let ?s4 = "?s3\<lparr>eventType := ET_CHANNEL,
        eventData := (eventData ?s3)\<lparr>channel := (channel (eventData ?s3))
          \<lparr>code := ucast (signed_drop_bit 4 (runningStatus ?s3)),
           chan := runningStatus ?s3 AND 0x0F, param1 := ucast q\<rparr>\<rparr>\<rparr>"
  have chan: "readEvent_channel (ucast q) ?s3 = channel_param2 ?s4"
    using q rs by (intro readEvent_channel_running) (simp_all add: consume_def bit7_ucast_byte)
  have cd: "code (channel (eventData ?s4)) = drop_bit 4 st"
    using rs by (simp add: consume_def code_of_status)
  have b4: "sint (bytesLeft ?s4) = sint (bytesLeft s) - int (Suc (length ds))"
    using b3 by simp
  show ?thesis
  proof (cases "one_param st")
    case True
    with qs have "qs = []" by simp
    moreover have "channel_param2 ?s4 = (eventType ?s4,
      ?s4\<lparr>eventData := (eventData ?s4)\<lparr>channel := (channel (eventData ?s4))\<lparr>param2 := 0\<rparr>\<rparr>\<rparr>)"
      using True cd by (intro channel_param2_one [where st = st]) simp_all
    ultimately show ?thesis
      using True rs unfolding start chan
      by (cases s) (simp add: consume_def code_of_status chan_of_status)
  next
    case False
    with qs obtain q2 where qs': "qs = [q2]" by (cases qs) auto
    have "channel_param2 ?s4 = (eventType ?s4,
      (consume 1 ?s4)\<lparr>eventData := (eventData ?s4)
        \<lparr>channel := (channel (eventData ?s4))\<lparr>param2 := ucast q2\<rparr>\<rparr>\<rparr>)"
    proof (rule channel_param2_two [where st = st and rest = rest])
      show "\<not> one_param st" by (rule False)
      show "code (channel (eventData ?s4)) = drop_bit 4 st" by (rule cd)
      show "pStream ?s4 = q2 # rest" using str qs' by (simp add: pStream_consume)
      show "0 < sint (bytesLeft ?s4)" using bud qs' unfolding b4 by simp
    qed
    then show ?thesis
      using False rs qs' unfolding start chan
      by (cases s) (simp add: consume_def code_of_status chan_of_status)
  qed
qed

lemma readEvent_running_inactive:
  assumes vlq: "is_vlq ds" and nonneg: "\<not> vlq_value ds <s 0"
    and q: "\<not> bit q 7"
    and rs: "\<not> bit (runningStatus s) 7"
    and str: "pStream s = ds @ q # rest"
    and bud: "int (length ds) < sint (bytesLeft s)"
  shows "readEvent s =
     (ET_UNK, (consume (Suc (length ds)) s)\<lparr>eventType := ET_UNK, eventDeltaTicks := vlq_value ds\<rparr>)"
proof -
  let ?s3 = "(consume (Suc (length ds)) s)\<lparr>eventType := ET_UNK, eventDeltaTicks := vlq_value ds\<rparr>"
  have start: "readEvent s = readEvent_channel (ucast q) ?s3"
    using vlq nonneg str bud data_byte_not_status [OF q]
    by (subst readEvent_start [where ds = ds and b = q and rest = rest])
       (simp_all add: Let_def ucast_byte_eq_F0 ucast_byte_eq_F7 ucast_byte_eq_FF)
  have "readEvent_channel (ucast q) ?s3 = (ET_UNK, ?s3\<lparr>eventType := ET_UNK\<rparr>)"
    using q rs by (intro readEvent_channel_inactive) (simp_all add: consume_def)
  then show ?thesis unfolding start by simp
qed

lemma is_vlq_single: "\<not> bit b 7 \<Longrightarrow> is_vlq [b]"
  by (simp add: is_vlq_def)

lemma vlq_value_0: "vlq_value [0] = 0"
  by (simp add: vlq_value_def vlq_step_def)

lemma one_param_C0: "one_param 0xC0"
  by (simp add: one_param_def)

lemma not_one_param_90: "\<not> one_param 0x90"
  by (simp add: one_param_def)

section \<open>Running status\<close>

text \<open>
  C5, as amended.  After \<open>readEvent\<close> has decoded a channel event with an explicit
  status byte \<open>st\<close>, a following event whose first byte \<open>q\<close> has bit 7 clear is a
  channel event with the opcode and the channel of \<open>st\<close> and with \<open>param1 = q\<close>.  Its
  \<open>param2\<close> is the next byte when the opcode takes two parameters; for program change
  and channel aftertouch \<open>param2\<close> is 0 and no further byte is read.  The running
  status after either event is \<open>st\<close>.
\<close>

theorem running_status_reuse:
  assumes "is_vlq d1" "\<not> vlq_value d1 <s 0" "is_vlq d2" "\<not> vlq_value d2 <s 0"
    and "bit st 7" "st \<noteq> 0xF0" "st \<noteq> 0xF7" "st \<noteq> 0xFF"
    and "\<not> bit q 7"
    and "length ps = (if one_param st then 1 else 2)"
    and "length qs = (if one_param st then 0 else 1)"
    and "pStream s = d1 @ st # ps @ d2 @ q # qs @ rest"
    and "int (length d1 + 1 + length ps + length d2 + 1 + length qs) \<le> sint (bytesLeft s)"
  shows "fst (readEvent s) = ET_CHANNEL \<and>
     code (channel (eventData (snd (readEvent s)))) = drop_bit 4 st \<and>
     chan (channel (eventData (snd (readEvent s)))) = ucast (st AND 0x0F) \<and>
     runningStatus (snd (readEvent s)) = ucast st \<and>
     fst (readEvent (snd (readEvent s))) = ET_CHANNEL \<and>
     channel (eventData (snd (readEvent (snd (readEvent s))))) =
       \<lparr>code = drop_bit 4 st, chan = ucast (st AND 0x0F), param1 = ucast q,
        param2 = (if one_param st then 0 else ucast (hd qs))\<rparr> \<and>
     runningStatus (snd (readEvent (snd (readEvent s)))) = ucast st \<and>
     pStream (snd (readEvent (snd (readEvent s)))) = rest"
proof -
  let ?n1 = "length d1 + 1 + length ps"
  let ?s1 = "(consume ?n1 s)
        \<lparr>eventType := ET_CHANNEL, eventDeltaTicks := vlq_value d1, runningStatus := ucast st,
         eventData := (eventData s)\<lparr>channel := (channel (eventData s))
           \<lparr>code := drop_bit 4 st, chan := ucast (st AND 0x0F), param1 := ucast (ps ! 0),
            param2 := (if one_param st then 0 else ucast (ps ! 1))\<rparr>\<rparr>\<rparr>"
  have e1: "readEvent s = (ET_CHANNEL, ?s1)"
    using assms by (intro readEvent_channel_first [where rest = "d2 @ q # qs @ rest"]) simp_all
  have b1: "sint (bytesLeft ?s1) = sint (bytesLeft s) - int ?n1"
    using assms(13) by (intro sint_consume_state) simp_all
  let ?n2 = "length d2 + 1 + length qs"
  let ?s2 = "(consume ?n2 ?s1)
        \<lparr>eventType := ET_CHANNEL, eventDeltaTicks := vlq_value d2,
         eventData := (eventData ?s1)\<lparr>channel := (channel (eventData ?s1))
           \<lparr>code := drop_bit 4 st, chan := ucast (st AND 0x0F), param1 := ucast q,
            param2 := (if one_param st then 0 else ucast (qs ! 0))\<rparr>\<rparr>\<rparr>"
  have e2: "readEvent ?s1 = (ET_CHANNEL, ?s2)"
  proof (rule readEvent_channel_second [where rest = rest])
    show "is_vlq d2" "\<not> vlq_value d2 <s 0" "\<not> bit q 7" "bit st 7"
      "length qs = (if one_param st then 0 else 1)" by fact+
    show "runningStatus ?s1 = ucast st" by (simp add: consume_def)
    show "pStream ?s1 = d2 @ q # qs @ rest" using assms(10,12) by (simp add: pStream_consume)
    show "int ?n2 \<le> sint (bytesLeft ?s1)" using assms(13) unfolding b1 by simp
  qed
  have hd: "\<not> one_param st \<Longrightarrow> qs ! 0 = hd qs"
    using assms(11) by (cases qs) simp_all
  show ?thesis
    apply (simp only: e1 e2 fst_conv snd_conv)
    using assms(10-12) hd apply (simp add: consume_def)
    done
qed

theorem running_status_reuse_witness:
  "fst (readEvent (in_chunk [0x00, 0x90, 0x40, 0x7F, 0x00, 0x41, 0x00] 7)) = ET_CHANNEL \<and>
   fst (readEvent (snd (readEvent (in_chunk [0x00, 0x90, 0x40, 0x7F, 0x00, 0x41, 0x00] 7))))
     = ET_CHANNEL \<and>
   channel (eventData (snd (readEvent (snd (readEvent
       (in_chunk [0x00, 0x90, 0x40, 0x7F, 0x00, 0x41, 0x00] 7)))))) =
     \<lparr>code = 0x9, chan = 0, param1 = 0x41, param2 = 0x00\<rparr> \<and>
   runningStatus (snd (readEvent (snd (readEvent
       (in_chunk [0x00, 0x90, 0x40, 0x7F, 0x00, 0x41, 0x00] 7))))) = 0x90"
  using running_status_reuse [of "[0x00]" "[0x00]" "0x90" "0x41" "[0x40, 0x7F]" "[0x00]"
      "in_chunk [0x00, 0x90, 0x40, 0x7F, 0x00, 0x41, 0x00] 7" "[]"]
  by (simp add: is_vlq_single vlq_value_0 not_one_param_90 in_chunk_def)

text \<open>
  The specification gives \<open>param2\<close> the value of the next byte for every channel
  event.  After a program change the event in running status has one byte:
  \<open>param2\<close> is 0, and the next byte, 0x07, stays in the stream.
\<close>

theorem running_status_param2_counterexample:
  "fst (readEvent prog_change_track) = ET_CHANNEL \<and>
   code (channel (eventData (snd (readEvent prog_change_track)))) = 0xC \<and>
   fst (readEvent (snd (readEvent prog_change_track))) = ET_CHANNEL \<and>
   param1 (channel (eventData (snd (readEvent (snd (readEvent prog_change_track)))))) = 0x06 \<and>
   pStream (snd (readEvent (snd (readEvent prog_change_track)))) = [0x07, 0x08] \<and>
   param2 (channel (eventData (snd (readEvent (snd (readEvent prog_change_track)))))) \<noteq> 0x07"
proof -
  let ?s = "prog_change_track"
  let ?s1 = "(consume 3 ?s)
        \<lparr>eventType := ET_CHANNEL, eventDeltaTicks := 0, runningStatus := 0xC0,
         eventData := (eventData ?s)\<lparr>channel := (channel (eventData ?s))
           \<lparr>code := 0xC, chan := 0, param1 := 0x05, param2 := 0\<rparr>\<rparr>\<rparr>"
  have e1: "readEvent ?s = (ET_CHANNEL, ?s1)"
    using readEvent_channel_first [of "[0x00]" "0xC0" "[0x05]" ?s "[0x00, 0x06, 0x07, 0x08]"]
    by (simp add: is_vlq_single vlq_value_0 one_param_C0 prog_change_track_def in_chunk_def
        consume_def)
  let ?s2 = "(consume 2 ?s1)
        \<lparr>eventType := ET_CHANNEL, eventDeltaTicks := 0,
         eventData := (eventData ?s1)\<lparr>channel := (channel (eventData ?s1))
           \<lparr>code := 0xC, chan := 0, param1 := 0x06, param2 := 0\<rparr>\<rparr>\<rparr>"
  have e2: "readEvent ?s1 = (ET_CHANNEL, ?s2)"
    using readEvent_channel_second [of "[0x00]" "0x06" ?s1 "0xC0" "[]" "[0x07, 0x08]"]
    by (simp add: is_vlq_single vlq_value_0 one_param_C0 prog_change_track_def in_chunk_def
        consume_def)
  show ?thesis
    apply (simp only: e1 e2 fst_conv snd_conv)
    apply (simp add: consume_def prog_change_track_def in_chunk_def)
    done
qed

section \<open>Meta events and the delta time: auxiliary facts\<close>

lemma rs_stream_read [simp]: "runningStatus (snd (stream_read s)) = runningStatus s"
  by (simp add: stream_read_def split: list.splits)

lemma rs_readChunkByte [simp]: "runningStatus (snd (readChunkByte s)) = runningStatus s"
  by (simp add: readChunkByte_def)

lemma rs_readChunkByte_noreturn [simp]:
  "runningStatus (snd (readChunkByte_noreturn s)) = runningStatus s"
  by (simp add: readChunkByte_noreturn_def case_prod_beta)

lemma rs_readFixedLong_loop [simp]:
  "runningStatus (snd (readFixedLong_loop n r s)) = runningStatus s"
  by (induction n arbitrary: r s) (simp_all add: case_prod_beta)

lemma rs_readFixedLong [simp]: "runningStatus (snd (readFixedLong n s)) = runningStatus s"
  by (simp add: readFixedLong_def)

lemma rs_readVariableLong_loop [simp]:
  "runningStatus (snd (readVariableLong_loop nb r s)) = runningStatus s"
proof (induction nb r s rule: readVariableLong_loop.induct)
  case (1 nb r s)
  show ?case
  proof (cases "4 < nb")
    case True
    then show ?thesis by (subst readVariableLong_loop.simps) simp
  next
    case False
    obtain bint s1 where rd: "readChunkByte s = (bint, s1)" by (cases "readChunkByte s")
    then have s1: "runningStatus s1 = runningStatus s"
      using rs_readChunkByte [of s] by simp
    show ?thesis
      using False rd s1 "1.IH" [OF False rd [symmetric]]
      by (subst readVariableLong_loop.simps) (simp add: Let_def)
  qed
qed

lemma rs_readVariableLong [simp]: "runningStatus (snd (readVariableLong s)) = runningStatus s"
  by (simp add: readVariableLong_def)

lemma rs_store [simp]:
  "runningStatus (snd (snd (readVariableBytes_store n i buf s))) = runningStatus s"
  by (induction n arbitrary: i buf s) (simp_all add: case_prod_beta)

lemma rs_skip [simp]: "runningStatus (snd (skip_loop n s)) = runningStatus s"
  by (induction n arbitrary: s) (simp_all add: case_prod_beta)

lemma rs_readVariableBytes [simp]:
  "runningStatus (snd (snd (readVariableBytes len buf s))) = runningStatus s"
  by (simp add: readVariableBytes_def Let_def case_prod_beta)

lemma rs_readBufEvent [simp]:
  "runningStatus (snd (readBufEvent et m mu len s)) = runningStatus s"
  by (simp add: readBufEvent_def Let_def case_prod_beta fail_ev_def ret_def)

lemma rs_meta_switch [simp]: "runningStatus (snd (meta_switch mt len s)) = runningStatus s"
  by (simp add: meta_switch_def meta_seq_num_def meta_chan_prefix_def meta_end_track_def
      meta_tempo_def meta_smpte_offset_def meta_time_sign_def meta_key_sign_def meta_unknown_def
      Let_def case_prod_beta fail_ev_def ret_def)

lemma rs_readEvent_meta: "runningStatus (snd (readEvent_meta s)) = 0"
  by (simp add: readEvent_meta_def Let_def case_prod_beta fail_ev_def ret_def)

lemma rs_readEvent_sysex: "runningStatus (snd (readEvent_sysex b s)) = 0"
  by (simp add: readEvent_sysex_def Let_def case_prod_beta fail_ev_def ret_def)

lemma readEvent_meta_ev:
  assumes vlq: "is_vlq ds" and nonneg: "\<not> vlq_value ds <s 0"
    and lvlq: "is_vlq ls" and lnonneg: "\<not> vlq_value ls <s 0"
    and str: "pStream s = ds @ 0xFF # mt # ls @ rest"
    and bud: "int (length ds + 2 + length ls) \<le> sint (bytesLeft s)"
  shows "readEvent s =
     meta_switch mt (vlq_value ls)
       ((consume (length ds + 2 + length ls) s)
          \<lparr>eventType := ET_UNK, eventDeltaTicks := vlq_value ds, runningStatus := 0\<rparr>)"
proof -
  let ?s3 = "(consume (Suc (length ds)) s)\<lparr>eventType := ET_UNK, eventDeltaTicks := vlq_value ds\<rparr>"
  have start: "readEvent s = readEvent_meta ?s3"
    using vlq nonneg str bud
    by (subst readEvent_start [where ds = ds and b = "0xFF" and rest = "mt # ls @ rest"])
       (simp_all add: Let_def)
  let ?s0 = "?s3\<lparr>runningStatus := 0\<rparr>"
  have b0: "sint (bytesLeft ?s0) = sint (bytesLeft s) - int (Suc (length ds))"
    using bud by (intro sint_consume_state) simp_all
  have rc: "readChunkByte ?s0 = (ucast mt, consume 1 ?s0)"
    using str bud b0
    by (intro readChunkByte_stream [where rest = "ls @ rest"]) (simp_all add: pStream_consume)
  have b1: "sint (bytesLeft (consume 1 ?s0)) = sint (bytesLeft s) - int (Suc (Suc (length ds)))"
    using bud by (intro sint_consume_state) (simp_all add: consume_def)
  have rv: "readVariableLong (consume 1 ?s0) = (vlq_value ls, consume (length ls) (consume 1 ?s0))"
    using lvlq str bud b1
    by (intro readVariableLong_stream [where rest = rest]) (simp_all add: pStream_consume)
  have c: "consume (length ls) (consume 1 ?s0) =
      (consume (length ds + 2 + length ls) s)
          \<lparr>eventType := ET_UNK, eventDeltaTicks := vlq_value ds, runningStatus := 0\<rparr>"
    by (cases s) (simp add: consume_def add.commute)
  show ?thesis
    unfolding start
    apply (simp only: readEvent_meta_def Let_def rc rv c prod.case)
    using lnonneg apply (simp add: ucast_byte_not_neg ucast_ucast_byte)
    done
qed

lemma readVariableLong_exhausted:
  "bytesLeft s \<le>s 0 \<Longrightarrow> readVariableLong s = (- 1, s)"
  unfolding readVariableLong_def
  by (subst readVariableLong_loop.simps) (simp add: readChunkByte_neg)

lemma stream_read_eventType:
  "stream_read (s\<lparr>eventType := x\<rparr>) =
   (fst (stream_read s), (snd (stream_read s))\<lparr>eventType := x\<rparr>)"
  by (simp add: stream_read_def split: list.splits)

lemma readChunkByte_eventType:
  "readChunkByte (s\<lparr>eventType := x\<rparr>) =
   (fst (readChunkByte s), (snd (readChunkByte s))\<lparr>eventType := x\<rparr>)"
  by (cases s) (simp add: readChunkByte_def stream_read_def split: list.splits)

lemma readVariableLong_loop_eventType:
  "readVariableLong_loop nb r (s\<lparr>eventType := x\<rparr>) =
   (fst (readVariableLong_loop nb r s), (snd (readVariableLong_loop nb r s))\<lparr>eventType := x\<rparr>)"
proof (induction nb r s rule: readVariableLong_loop.induct)
  case (1 nb r s)
  show ?case
  proof (cases "4 < nb")
    case True
    then show ?thesis
      by (subst readVariableLong_loop.simps, subst (2) readVariableLong_loop.simps,
          subst (3) readVariableLong_loop.simps) simp
  next
    case False
    obtain bint s1 where rd: "readChunkByte s = (bint, s1)" by (cases "readChunkByte s")
    then have rd': "readChunkByte (s\<lparr>eventType := x\<rparr>) = (bint, s1\<lparr>eventType := x\<rparr>)"
      by (simp add: readChunkByte_eventType)
    show ?thesis
      using False rd rd' "1.IH" [OF False rd [symmetric]]
      by (subst readVariableLong_loop.simps, subst (2) readVariableLong_loop.simps,
          subst (3) readVariableLong_loop.simps) (simp add: Let_def)
  qed
qed

lemma readVariableLong_eventType:
  "readVariableLong (s\<lparr>eventType := x\<rparr>) =
   (fst (readVariableLong s), (snd (readVariableLong s))\<lparr>eventType := x\<rparr>)"
  by (simp add: readVariableLong_def readVariableLong_loop_eventType)

lemma readEvent_delta_negative:
  "fst (readVariableLong s) <s 0 \<Longrightarrow>
   readEvent s =
   (ET_END, (snd (readVariableLong s))
      \<lparr>eventDeltaTicks := fst (readVariableLong s), eventType := ET_END\<rparr>)"
  by (simp add: readEvent_def readVariableLong_eventType ret_def)

lemma rvl_loop_budget_ends:
  "sint (bytesLeft s) = int (length cs) \<Longrightarrow> pStream s = cs @ rest \<Longrightarrow>
   \<forall>c\<in>set cs. bit c 7 \<Longrightarrow> fst (readVariableLong_loop nb r s) = - 1"
proof (induction cs arbitrary: nb r s)
  case Nil
  then have "bytesLeft s \<le>s 0" by (simp add: word_sle_eq)
  then show ?case by (subst readVariableLong_loop.simps) (simp add: readChunkByte_neg)
next
  case (Cons c cs)
  show ?case
  proof (cases "4 < nb")
    case True
    then show ?thesis by (subst readVariableLong_loop.simps) simp
  next
    case False
    from Cons.prems have pos: "0 <s bytesLeft s" by (simp add: word_sless_alt)
    let ?s1 = "s\<lparr>bytesLeft := bytesLeft s - 1, pStream := cs @ rest\<rparr>"
    have "readVariableLong_loop nb r s = readVariableLong_loop (nb + 1) (vlq_step r c) ?s1"
      using Cons.prems pos False by (intro rvl_loop_cont) simp_all
    moreover have "fst (readVariableLong_loop (nb + 1) (vlq_step r c) ?s1) = - 1"
      using Cons.prems pos by (intro Cons.IH) (simp_all add: sint_dec)
    ultimately show ?thesis by simp
  qed
qed

lemma meta_end_track_0:
  "meta_switch 0x2F 0 s = (ET_END_TRACK, s\<lparr>eventType := ET_END_TRACK\<rparr>)"
  by (simp add: meta_switch_def meta_end_track_def ret_def)

lemma meta_switch_wrong_length:
  "fixed_meta_size mt = Some k \<Longrightarrow> len \<noteq> k \<Longrightarrow>
   meta_switch mt len s = (ET_UNK, s\<lparr>eventType := ET_UNK\<rparr>)"
  by (auto simp add: fixed_meta_size_def meta_switch_def meta_seq_num_def meta_chan_prefix_def
      meta_end_track_def meta_tempo_def meta_smpte_offset_def meta_time_sign_def
      meta_key_sign_def fail_ev_def ret_def split: if_splits)

section \<open>The end of a track\<close>

text \<open>
  C3.  When the byte budget of the chunk is already 0 (or below), \<open>readEvent\<close> returns
  \<open>ET_END\<close>.  The meta event 0xFF 0x2F 0x00 after a delta time is returned as an event of
  kind \<open>ET_END_TRACK\<close>, a different value, and its three bytes and the delta time are
  consumed; when the chunk ends exactly there, the next call of \<open>readEvent\<close> returns
  \<open>ET_END\<close>.
\<close>

theorem end_of_track_detection:
  "(bytesLeft s \<le>s 0 \<longrightarrow> fst (readEvent s) = ET_END) \<and>
   (is_vlq ds \<and> \<not> vlq_value ds <s 0 \<and> pStream s' = ds @ [0xFF, 0x2F, 0x00] @ rest \<and>
      int (length ds + 3) \<le> sint (bytesLeft s') \<longrightarrow>
      fst (readEvent s') = ET_END_TRACK \<and>
      pStream (snd (readEvent s')) = rest \<and>
      sint (bytesLeft (snd (readEvent s'))) = sint (bytesLeft s') - int (length ds + 3) \<and>
      (sint (bytesLeft s') = int (length ds + 3) \<longrightarrow>
         fst (readEvent (snd (readEvent s'))) = ET_END)) \<and>
   ET_END \<noteq> ET_END_TRACK"
proof (intro conjI impI)
  assume "bytesLeft s \<le>s 0"
  then have "readVariableLong s = (- 1, s)" by (rule readVariableLong_exhausted)
  then show "fst (readEvent s) = ET_END"
    using readEvent_delta_negative [of s] by simp
next
  assume a: "is_vlq ds \<and> \<not> vlq_value ds <s 0 \<and> pStream s' = ds @ [0xFF, 0x2F, 0x00] @ rest \<and>
      int (length ds + 3) \<le> sint (bytesLeft s')"
  let ?t = "(consume (length ds + 2 + length [0::byte]) s')
          \<lparr>eventType := ET_UNK, eventDeltaTicks := vlq_value ds, runningStatus := 0\<rparr>"
  have "readEvent s' = meta_switch 0x2F (vlq_value [0]) ?t"
    using a by (intro readEvent_meta_ev [where rest = rest])
      (simp_all add: is_vlq_single vlq_value_0)
  then have ev: "readEvent s' = (ET_END_TRACK, ?t\<lparr>eventType := ET_END_TRACK\<rparr>)"
    by (simp only: vlq_value_0 meta_end_track_0)
  show "fst (readEvent s') = ET_END_TRACK" by (simp add: ev)
  show "pStream (snd (readEvent s')) = rest" using a by (simp add: ev pStream_consume)
  show b: "sint (bytesLeft (snd (readEvent s'))) = sint (bytesLeft s') - int (length ds + 3)"
    using a by (simp add: ev bytesLeft_consume sint_sub_of_nat [of "3 + length ds", simplified])
  show "fst (readEvent (snd (readEvent s'))) = ET_END"
    if "sint (bytesLeft s') = int (length ds + 3)"
  proof -
    from that b have "bytesLeft (snd (readEvent s')) \<le>s 0" by (simp add: word_sle_eq)
    then have "readVariableLong (snd (readEvent s')) = (- 1, snd (readEvent s'))"
      by (rule readVariableLong_exhausted)
    then show ?thesis
      using readEvent_delta_negative [of "snd (readEvent s')"] by simp
  qed
next
  show "ET_END \<noteq> ET_END_TRACK" by simp
qed

theorem end_of_track_detection_witness:
  "fst (readEvent (in_chunk [] 0)) = ET_END \<and>
   fst (readEvent (in_chunk [0x00, 0xFF, 0x2F, 0x00] 4)) = ET_END_TRACK \<and>
   pStream (snd (readEvent (in_chunk [0x00, 0xFF, 0x2F, 0x00] 4))) = [] \<and>
   sint (bytesLeft (snd (readEvent (in_chunk [0x00, 0xFF, 0x2F, 0x00] 4)))) = 0 \<and>
   fst (readEvent (snd (readEvent (in_chunk [0x00, 0xFF, 0x2F, 0x00] 4)))) = ET_END"
  using end_of_track_detection
    [of "in_chunk [] 0" "[0x00]" "in_chunk [0x00, 0xFF, 0x2F, 0x00] 4" "[]"]
  by (simp add: is_vlq_single vlq_value_0 in_chunk_def)

section \<open>Failures at the delta time\<close>

text \<open>
  C4.  Whenever the decoding of the delta time gives a negative number, \<open>readEvent\<close>
  returns \<open>ET_END\<close> and leaves \<open>ET_END\<close> as the event type.  That is the case when the
  budget is already 0, when the budget ends inside the number (every byte up to the end
  of the budget has bit 7 set), when the number has five continuation bytes and is
  rejected, and when a number of five bytes wraps to a negative \<open>long\<close>: none of them is
  told apart from the end of the track.
\<close>

theorem delta_time_failure_is_end:
  "(fst (readVariableLong s) <s 0 \<longrightarrow>
      fst (readEvent s) = ET_END \<and> eventType (snd (readEvent s)) = ET_END) \<and>
   (bytesLeft s1 \<le>s 0 \<longrightarrow> fst (readEvent s1) = ET_END) \<and>
   (sint (bytesLeft s2) = int (length cs) \<and> pStream s2 = cs @ rest2 \<and> (\<forall>c\<in>set cs. bit c 7) \<longrightarrow>
      fst (readEvent s2) = ET_END) \<and>
   (length cs5 = 5 \<and> (\<forall>c\<in>set cs5. bit c 7) \<and> pStream s3 = cs5 @ rest3 \<longrightarrow>
      fst (readEvent s3) = ET_END) \<and>
   (is_vlq ds \<and> vlq_value ds <s 0 \<and> pStream s4 = ds @ rest4 \<and>
      int (length ds) \<le> sint (bytesLeft s4) \<longrightarrow>
      fst (readEvent s4) = ET_END)"
proof (intro conjI impI)
  assume "fst (readVariableLong s) <s 0"
  then have "readEvent s = (ET_END, (snd (readVariableLong s))
      \<lparr>eventDeltaTicks := fst (readVariableLong s), eventType := ET_END\<rparr>)"
    by (rule readEvent_delta_negative)
  then show "fst (readEvent s) = ET_END" "eventType (snd (readEvent s)) = ET_END"
    by simp_all
next
  assume "bytesLeft s1 \<le>s 0"
  then have "readVariableLong s1 = (- 1, s1)" by (rule readVariableLong_exhausted)
  then show "fst (readEvent s1) = ET_END"
    using readEvent_delta_negative [of s1] by simp
next
  assume "sint (bytesLeft s2) = int (length cs) \<and> pStream s2 = cs @ rest2 \<and> (\<forall>c\<in>set cs. bit c 7)"
  then have "sint (bytesLeft s2) = int (length cs)" "pStream s2 = cs @ rest2" "\<forall>c\<in>set cs. bit c 7"
    by blast+
  then have "fst (readVariableLong s2) = - 1"
    unfolding readVariableLong_def by (rule rvl_loop_budget_ends)
  then show "fst (readEvent s2) = ET_END"
    using readEvent_delta_negative [of s2] by simp
next
  assume "length cs5 = 5 \<and> (\<forall>c\<in>set cs5. bit c 7) \<and> pStream s3 = cs5 @ rest3"
  then have "0 + length cs5 = 5" "pStream s3 = cs5 @ rest3" "\<forall>c\<in>set cs5. bit c 7"
    by simp_all
  then have "fst (readVariableLong s3) = - 1"
    unfolding readVariableLong_def by (rule rvl_loop_reject)
  then show "fst (readEvent s3) = ET_END"
    using readEvent_delta_negative [of s3] by simp
next
  assume a: "is_vlq ds \<and> vlq_value ds <s 0 \<and> pStream s4 = ds @ rest4 \<and>
      int (length ds) \<le> sint (bytesLeft s4)"
  then have "readVariableLong s4 = (vlq_value ds, consume (length ds) s4)"
    by (intro readVariableLong_stream [where rest = rest4]) simp_all
  with a show "fst (readEvent s4) = ET_END"
    using readEvent_delta_negative [of s4] by simp
qed

lemma vlq_wraps_negative:
  "is_vlq [0x88, 0x80, 0x80, 0x80, 0x00]"
  "vlq_value [0x88, 0x80, 0x80, 0x80, 0x00] = 0x80000000"
  "vlq_value [0x88, 0x80, 0x80, 0x80, 0x00] <s 0"
  by (simp_all add: is_vlq_def vlq_value_def vlq_step_def word_sless_alt)

theorem delta_time_failure_is_end_witness:
  "fst (readEvent (in_chunk [0x00, 0x90, 0x40, 0x7F] 0)) = ET_END \<and>
   eventType (snd (readEvent (in_chunk [0x00, 0x90, 0x40, 0x7F] 0))) = ET_END \<and>
   fst (readEvent (in_chunk [0x81, 0x00, 0x90, 0x40, 0x7F] 1)) = ET_END \<and>
   fst (readEvent (in_chunk [0x81, 0x80, 0x80, 0x80, 0x80, 0x00, 0x90, 0x40, 0x7F] 9)) = ET_END \<and>
   fst (readEvent (in_chunk [0x88, 0x80, 0x80, 0x80, 0x00, 0x90, 0x40, 0x7F] 8)) = ET_END"
  using delta_time_failure_is_end
    [of "in_chunk [0x00, 0x90, 0x40, 0x7F] 0" "in_chunk [0x00, 0x90, 0x40, 0x7F] 0"
        "in_chunk [0x81, 0x00, 0x90, 0x40, 0x7F] 1" "[0x81]" "[0x00, 0x90, 0x40, 0x7F]"
        "[0x81, 0x80, 0x80, 0x80, 0x80]"
        "in_chunk [0x81, 0x80, 0x80, 0x80, 0x80, 0x00, 0x90, 0x40, 0x7F] 9"
        "[0x00, 0x90, 0x40, 0x7F]"
        "[0x88, 0x80, 0x80, 0x80, 0x00]"
        "in_chunk [0x88, 0x80, 0x80, 0x80, 0x00, 0x90, 0x40, 0x7F] 8" "[0x90, 0x40, 0x7F]"]
    readVariableLong_exhausted [of "in_chunk [0x00, 0x90, 0x40, 0x7F] 0"]
  by (simp add: vlq_wraps_negative in_chunk_def word_sless_alt)

section \<open>Events that fill a buffer\<close>

lemma stored_length_nonneg:
  assumes "0 \<le>s (v::c_long)" "v \<le>s 140"
  shows "sint (ucast v :: c_int) = sint v"
proof -
  from assms have r: "0 \<le> sint v" "sint v \<le> 140" by (simp_all add: word_sle_eq)
  then have "take_bit 32 (sint v) = sint v"
    by (intro take_bit_int_eq_self) simp_all
  then have u: "uint v = sint v" by (simp add: uint_sint)
  have "sint (ucast v :: c_int) = signed_take_bit 15 (uint v)"
    by (simp add: signed_ucast_eq)
  also have "\<dots> = uint v"
    using r u by (intro signed_take_bit_int_eq_self) simp_all
  finally show ?thesis using u by simp
qed

lemma trunc_range:
  "0 \<le>s (len::c_long) \<Longrightarrow>
   0 \<le>s (if 140 <s len then 140 else len) \<and> (if 140 <s len then 140 else len) \<le>s 140"
  by (auto simp add: word_sle_eq word_sless_alt)

lemma readBufEvent_ok:
  assumes len: "0 \<le>s len"
    and str: "nat (sint len) \<le> length (pStream s)"
    and bud: "sint len \<le> sint (bytesLeft s)"
    and buf: "length (buf_bytes (m (eventData s))) = 141"
  shows "readBufEvent et m mu len s =
     (et, (consume (nat (sint len)) s)
        \<lparr>eventType := et,
         eventData := mu (\<lambda>_. \<lparr>buf_length = ucast (if 140 <s len then 140 else len),
           buf_bytes = take (min 140 (nat (sint len))) (pStream s) @
             0 # drop (Suc (min 140 (nat (sint len)))) (buf_bytes (m (eventData s)))\<rparr>)
           (eventData s)\<rparr>)"
proof -
  let ?s1 = "s\<lparr>eventType := et\<rparr>"
  have rv: "readVariableBytes len (buf_bytes (m (eventData ?s1))) ?s1 =
     (if 140 <s len then 140 else len,
      take (min 140 (nat (sint len))) (pStream ?s1) @
        0 # drop (Suc (min 140 (nat (sint len)))) (buf_bytes (m (eventData ?s1))),
      consume (nat (sint len)) ?s1)"
    using assms by (intro readVariableBytes_ok) simp_all
  have nn: "\<not> (ucast (if 140 <s len then 140 else len) :: c_int) <s 0"
    using trunc_range [OF len] stored_length_nonneg [of "if 140 <s len then 140 else len"]
    by (simp add: word_sless_alt word_sle_eq)
  show ?thesis
    apply (simp only: readBufEvent_def Let_def rv prod.case)
    using nn apply (cases s) apply (simp add: ret_def consume_def)
    done
qed

lemma readEvent_text_ev:
  assumes vlq: "is_vlq ds" and nonneg: "\<not> vlq_value ds <s 0"
    and lvlq: "is_vlq ls" and lnonneg: "0 \<le>s vlq_value ls"
    and pay: "length payload = nat (sint (vlq_value ls))"
    and str: "pStream s = ds @ 0xFF # 0x01 # ls @ payload @ rest"
    and bud: "int (length ds + 2 + length ls + length payload) \<le> sint (bytesLeft s)"
    and buf: "length (buf_bytes (text_ev (eventData s))) = 141"
  shows "readEvent s =
     (ET_TEXT,
      (consume (length ds + 2 + length ls + length payload) s)
        \<lparr>eventType := ET_TEXT, eventDeltaTicks := vlq_value ds, runningStatus := 0,
         eventData := (eventData s)
           \<lparr>text_ev := \<lparr>buf_length = ucast (if 140 <s vlq_value ls then 140 else vlq_value ls),
              buf_bytes = take 140 payload @
                0 # drop (Suc (min 140 (length payload))) (buf_bytes (text_ev (eventData s)))\<rparr>\<rparr>\<rparr>)"
proof -
  let ?n = "length ds + 2 + length ls"
  let ?t = "(consume ?n s)
          \<lparr>eventType := ET_UNK, eventDeltaTicks := vlq_value ds, runningStatus := 0\<rparr>"
  from lnonneg have ln: "\<not> vlq_value ls <s 0" by (simp add: word_sle_eq word_sless_alt)
  have "readEvent s = meta_switch 0x01 (vlq_value ls) ?t"
    using vlq nonneg lvlq ln str bud
    by (intro readEvent_meta_ev [where rest = "payload @ rest"]) simp_all
  then have ev: "readEvent s = readBufEvent ET_TEXT text_ev text_ev_update (vlq_value ls) ?t"
    by (simp add: meta_switch_def)
  have bt: "sint (bytesLeft ?t) = sint (bytesLeft s) - int ?n"
    using bud by (intro sint_consume_state) simp_all
  have pt: "pStream ?t = payload @ rest" using str by (simp add: pStream_consume)
  have rb: "readBufEvent ET_TEXT text_ev text_ev_update (vlq_value ls) ?t =
     (ET_TEXT, (consume (nat (sint (vlq_value ls))) ?t)
        \<lparr>eventType := ET_TEXT,
         eventData := text_ev_update (\<lambda>_. \<lparr>buf_length = ucast (if 140 <s vlq_value ls then 140 else vlq_value ls),
           buf_bytes = take (min 140 (nat (sint (vlq_value ls)))) (pStream ?t) @
             0 # drop (Suc (min 140 (nat (sint (vlq_value ls))))) (buf_bytes (text_ev (eventData ?t)))\<rparr>)
           (eventData ?t)\<rparr>)"
  proof (rule readBufEvent_ok)
    show "0 \<le>s vlq_value ls" by (rule lnonneg)
    show "nat (sint (vlq_value ls)) \<le> length (pStream ?t)" using pay by (simp only: pt) simp
    show "sint (vlq_value ls) \<le> sint (bytesLeft ?t)"
      using bud pay lnonneg unfolding bt by (simp add: word_sle_eq)
    show "length (buf_bytes (text_ev (eventData ?t))) = 141" using buf by (simp add: consume_def)
  qed
  have c: "consume (nat (sint (vlq_value ls))) ?t =
      (consume (length ds + 2 + length ls + length payload) s)
          \<lparr>eventType := ET_UNK, eventDeltaTicks := vlq_value ds, runningStatus := 0\<rparr>"
    unfolding pay [symmetric] by (cases s) (simp add: consume_def add.commute)
  have tk: "take (min 140 (nat (sint (vlq_value ls)))) (pStream ?t) = take 140 payload"
    unfolding pt pay [symmetric] by (simp add: min_def)
  have ed: "eventData ?t = eventData s" by (simp add: consume_def)
  show ?thesis
    apply (simp only: ev rb c tk ed)
    apply (simp only: pay [symmetric])
    apply (cases s)
    apply (simp add: consume_def)
    done
qed

lemma vlq_200: "is_vlq [0x81, 0x48]" "vlq_value [0x81, 0x48] = 200"
  by (simp_all add: is_vlq_def vlq_value_def vlq_step_def)

section \<open>Truncation of variable-length data\<close>

text \<open>
  C2.  \<open>readVariableBytes\<close> never changes the size of the buffer nor any position from
  141 on.  When the declared length is not negative and the chunk holds that many
  bytes, it stores the first \<open>min 140 length\<close> of them at the start of a buffer of 141
  bytes, puts a null byte after them, returns that number, and consumes exactly the
  declared number of bytes from the stream and from the budget.  So does a text meta
  event read by \<open>readEvent\<close>: the stored length is at most 140 and the whole payload is
  consumed.  When the chunk holds fewer bytes than a positive declared length, the result
  is -1.
\<close>

theorem readVariableBytes_truncates:
  "length (fst (snd (readVariableBytes len0 buf0 s0))) = length buf0 \<and>
   drop 141 (fst (snd (readVariableBytes len0 buf0 s0))) = drop 141 buf0 \<and>
   (0 \<le>s len \<and> nat (sint len) \<le> length (pStream s) \<and> sint len \<le> sint (bytesLeft s) \<and>
      length buf = 141 \<longrightarrow>
      readVariableBytes len buf s =
        (if 140 <s len then 140 else len,
         take (min 140 (nat (sint len))) (pStream s) @
           0 # drop (Suc (min 140 (nat (sint len)))) buf,
         consume (nat (sint len)) s)) \<and>
   (is_vlq ds \<and> \<not> vlq_value ds <s 0 \<and> is_vlq ls \<and> 0 \<le>s vlq_value ls \<and>
      length payload = nat (sint (vlq_value ls)) \<and>
      pStream s1 = ds @ 0xFF # 0x01 # ls @ payload @ rest \<and>
      int (length ds + 2 + length ls + length payload) \<le> sint (bytesLeft s1) \<and>
      length (buf_bytes (text_ev (eventData s1))) = 141 \<longrightarrow>
      fst (readEvent s1) = ET_TEXT \<and>
      text_ev (eventData (snd (readEvent s1))) =
        \<lparr>buf_length = ucast (if 140 <s vlq_value ls then 140 else vlq_value ls),
         buf_bytes = take 140 payload @
           0 # drop (Suc (min 140 (length payload))) (buf_bytes (text_ev (eventData s1)))\<rparr> \<and>
      pStream (snd (readEvent s1)) = rest \<and>
      bytesLeft (snd (readEvent s1)) =
        bytesLeft s1 - of_nat (length ds + 2 + length ls + length payload)) \<and>
   (0 <s len2 \<and> (sint (bytesLeft s2) < sint len2 \<or> length (pStream s2) < nat (sint len2)) \<longrightarrow>
      fst (readVariableBytes len2 buf2 s2) = - 1)"
proof (intro conjI impI)
  obtain r buf' s' where rv: "readVariableBytes len0 buf0 s0 = (r, buf', s')"
    by (cases "readVariableBytes len0 buf0 s0")
  from readVariableBytes_bounds [OF rv]
  show "length (fst (snd (readVariableBytes len0 buf0 s0))) = length buf0"
    and "drop 141 (fst (snd (readVariableBytes len0 buf0 s0))) = drop 141 buf0"
    by (simp_all add: rv)
next
  assume "0 \<le>s len \<and> nat (sint len) \<le> length (pStream s) \<and> sint len \<le> sint (bytesLeft s) \<and>
      length buf = 141"
  then show "readVariableBytes len buf s =
        (if 140 <s len then 140 else len,
         take (min 140 (nat (sint len))) (pStream s) @
           0 # drop (Suc (min 140 (nat (sint len)))) buf,
         consume (nat (sint len)) s)"
    by (intro readVariableBytes_ok) simp_all
next
  assume a: "is_vlq ds \<and> \<not> vlq_value ds <s 0 \<and> is_vlq ls \<and> 0 \<le>s vlq_value ls \<and>
      length payload = nat (sint (vlq_value ls)) \<and>
      pStream s1 = ds @ 0xFF # 0x01 # ls @ payload @ rest \<and>
      int (length ds + 2 + length ls + length payload) \<le> sint (bytesLeft s1) \<and>
      length (buf_bytes (text_ev (eventData s1))) = 141"
  have ev: "readEvent s1 =
     (ET_TEXT,
      (consume (length ds + 2 + length ls + length payload) s1)
        \<lparr>eventType := ET_TEXT, eventDeltaTicks := vlq_value ds, runningStatus := 0,
         eventData := (eventData s1)
           \<lparr>text_ev := \<lparr>buf_length = ucast (if 140 <s vlq_value ls then 140 else vlq_value ls),
              buf_bytes = take 140 payload @
                0 # drop (Suc (min 140 (length payload))) (buf_bytes (text_ev (eventData s1)))\<rparr>\<rparr>\<rparr>)"
  proof (rule readEvent_text_ev)
    show "is_vlq ds" "\<not> vlq_value ds <s 0" "is_vlq ls" "0 \<le>s vlq_value ls"
      "length payload = nat (sint (vlq_value ls))"
      "pStream s1 = ds @ 0xFF # 0x01 # ls @ payload @ rest"
      "int (length ds + 2 + length ls + length payload) \<le> sint (bytesLeft s1)"
      "length (buf_bytes (text_ev (eventData s1))) = 141"
      using a by blast+
  qed
  show "fst (readEvent s1) = ET_TEXT" by (simp add: ev)
  show "text_ev (eventData (snd (readEvent s1))) =
        \<lparr>buf_length = ucast (if 140 <s vlq_value ls then 140 else vlq_value ls),
         buf_bytes = take 140 payload @
           0 # drop (Suc (min 140 (length payload))) (buf_bytes (text_ev (eventData s1)))\<rparr>"
    by (simp add: ev)
  show "pStream (snd (readEvent s1)) = rest" using a by (simp add: ev pStream_consume)
  show "bytesLeft (snd (readEvent s1)) =
        bytesLeft s1 - of_nat (length ds + 2 + length ls + length payload)"
    by (simp only: ev snd_conv) (simp add: bytesLeft_consume)
next
  assume "0 <s len2 \<and> (sint (bytesLeft s2) < sint len2 \<or> length (pStream s2) < nat (sint len2))"
  then have "0 <s len2" "sint (bytesLeft s2) < sint len2 \<or> length (pStream s2) < nat (sint len2)"
    by blast+
  then show "fst (readVariableBytes len2 buf2 s2) = - 1"
    by (rule readVariableBytes_underrun)
qed

theorem readVariableBytes_truncates_witness:
  "readVariableBytes 200 (replicate 141 0xEE) (in_chunk (replicate 200 0x41 @ [0x00]) 250) =
     (140, replicate 140 0x41 @ [0x00], in_chunk [0x00] 50) \<and>
   fst (readEvent long_text_track) = ET_TEXT \<and>
   text_ev (eventData (snd (readEvent long_text_track))) =
     \<lparr>buf_length = 140, buf_bytes = replicate 140 0x41 @ [0x00]\<rparr> \<and>
   pStream (snd (readEvent long_text_track)) = [0x00, 0xFF, 0x2F, 0x00] \<and>
   bytesLeft (snd (readEvent long_text_track)) = 4 \<and>
   fst (readVariableBytes 200 (replicate 141 0xEE) (in_chunk (replicate 200 0x41) 100)) = - 1"
  using readVariableBytes_truncates
    [of 200 "replicate 141 0xEE" "in_chunk (replicate 200 0x41 @ [0x00]) 250"
        200 "in_chunk (replicate 200 0x41 @ [0x00]) 250" "replicate 141 0xEE"
        "[0x00]" "[0x81, 0x48]" "replicate 200 0x41" long_text_track "[0x00, 0xFF, 0x2F, 0x00]"
        200 "in_chunk (replicate 200 0x41) 100" "replicate 141 0xEE"]
  by (simp add: vlq_200 is_vlq_single vlq_value_0 long_text_track_def in_chunk_def consume_def
      zero_eventData_def zero_buf_def word_sle_eq word_sless_alt)

section \<open>Meta and sysex events clear the running status\<close>

text \<open>
  C6.  When the first byte of an event is 0xFF, 0xF0 or 0xF7, the running status is 0
  after \<open>readEvent\<close>, whatever the rest of the event is.  A following event whose delta
  time decodes and whose first byte has bit 7 clear then fails: \<open>readEvent\<close> returns
  \<open>ET_UNK\<close>.
\<close>

theorem meta_sysex_clear_running_status:
  assumes "is_vlq d1" "\<not> vlq_value d1 <s 0"
    and "b = 0xFF \<or> b = 0xF0 \<or> b = 0xF7"
    and "pStream s = d1 @ b # tail1"
    and "int (length d1) < sint (bytesLeft s)"
    and "is_vlq d2" "\<not> vlq_value d2 <s 0" "\<not> bit q 7"
    and "pStream (snd (readEvent s)) = d2 @ q # rest"
    and "int (length d2) < sint (bytesLeft (snd (readEvent s)))"
  shows "runningStatus (snd (readEvent s)) = 0 \<and> fst (readEvent (snd (readEvent s))) = ET_UNK"
proof -
  let ?s3 = "(consume (Suc (length d1)) s)\<lparr>eventType := ET_UNK, eventDeltaTicks := vlq_value d1\<rparr>"
  have "readEvent s = (if b = 0xFF then readEvent_meta ?s3 else readEvent_sysex (ucast b) ?s3)"
    using assms(1-5)
    by (subst readEvent_start [where ds = d1 and b = b and rest = tail1]) (auto simp add: Let_def)
  then have rs: "runningStatus (snd (readEvent s)) = 0"
    by (simp add: rs_readEvent_meta rs_readEvent_sysex)
  have "readEvent (snd (readEvent s)) =
     (ET_UNK, (consume (Suc (length d2)) (snd (readEvent s)))
        \<lparr>eventType := ET_UNK, eventDeltaTicks := vlq_value d2\<rparr>)"
    using assms(6-10) rs by (intro readEvent_running_inactive [where rest = rest]) simp_all
  with rs show ?thesis by simp
qed

theorem meta_sysex_clear_running_status_witness:
  "fst (readEvent cleared_track) = ET_CHANNEL \<and>
   runningStatus (snd (readEvent cleared_track)) = 0x90 \<and>
   runningStatus (snd (readEvent (snd (readEvent cleared_track)))) = 0 \<and>
   fst (readEvent (snd (readEvent (snd (readEvent cleared_track))))) = ET_UNK"
proof -
  define s1 where "s1 = snd (readEvent cleared_track)"
  have e1: "readEvent cleared_track = (ET_CHANNEL,
      (consume 4 cleared_track)
        \<lparr>eventType := ET_CHANNEL, eventDeltaTicks := 0, runningStatus := 0x90,
         eventData := (eventData cleared_track)\<lparr>channel := (channel (eventData cleared_track))
           \<lparr>code := 0x9, chan := 0, param1 := 0x40, param2 := 0x7F\<rparr>\<rparr>\<rparr>)"
    using readEvent_channel_first [of "[0x00]" "0x90" "[0x40, 0x7F]" cleared_track
        "[0x00, 0xFF, 0x01, 0x00, 0x00, 0x41, 0x00]"]
    by (simp add: is_vlq_single vlq_value_0 not_one_param_90 cleared_track_def in_chunk_def
        consume_def)
  have p1: "pStream s1 = [0x00, 0xFF, 0x01, 0x00, 0x00, 0x41, 0x00]" "bytesLeft s1 = 7"
    "runningStatus s1 = 0x90" "length (buf_bytes (text_ev (eventData s1))) = 141"
    unfolding s1_def e1
    by (simp_all add: consume_def cleared_track_def in_chunk_def zero_eventData_def zero_buf_def)
  define s2 where "s2 = snd (readEvent s1)"
  have e2: "pStream s2 = [0x00, 0x41, 0x00]" "bytesLeft s2 = 3"
    unfolding s2_def
    using readEvent_text_ev [of "[0x00]" "[0x00]" "[]" s1 "[0x00, 0x41, 0x00]"] p1
    by (simp_all add: is_vlq_single vlq_value_0 consume_def)
  have f1: "fst (readEvent cleared_track) = ET_CHANNEL" by (simp only: e1 fst_conv)
  have "runningStatus (snd (readEvent s1)) = 0 \<and> fst (readEvent (snd (readEvent s1))) = ET_UNK"
    using meta_sysex_clear_running_status
      [of "[0x00]" "0xFF" s1 "[0x01, 0x00, 0x00, 0x41, 0x00]" "[0x00]" "0x41" "[0x00]"]
      p1 e2 [unfolded s2_def]
    by (simp add: is_vlq_single vlq_value_0)
  then show ?thesis
    unfolding s1_def [symmetric] using f1 p1(3) by simp
qed

section \<open>Meta events of fixed shape\<close>

text \<open>
  C9.  For a meta event of fixed shape (sequence number, channel prefix, end of track,
  tempo, SMPTE offset, time signature, key signature), when the decoded length differs
  from the size the event must have, \<open>readEvent\<close> returns \<open>ET_UNK\<close>, and it has consumed the
  delta time, the two bytes 0xFF and type, and the length, and nothing of the payload.
\<close>

theorem fixed_meta_length_contract:
  assumes "is_vlq ds" "\<not> vlq_value ds <s 0" "is_vlq ls" "\<not> vlq_value ls <s 0"
    and "fixed_meta_size mt = Some k" "vlq_value ls \<noteq> k"
    and "pStream s = ds @ 0xFF # mt # ls @ rest"
    and "int (length ds + 2 + length ls) \<le> sint (bytesLeft s)"
  shows "readEvent s =
     (ET_UNK, (consume (length ds + 2 + length ls) s)
        \<lparr>eventType := ET_UNK, eventDeltaTicks := vlq_value ds, runningStatus := 0\<rparr>)"
proof -
  let ?t = "(consume (length ds + 2 + length ls) s)
          \<lparr>eventType := ET_UNK, eventDeltaTicks := vlq_value ds, runningStatus := 0\<rparr>"
  have "readEvent s = meta_switch mt (vlq_value ls) ?t"
    using assms(1-4,7,8) by (rule readEvent_meta_ev)
  also have "\<dots> = (ET_UNK, ?t\<lparr>eventType := ET_UNK\<rparr>)"
    using assms(5,6) by (rule meta_switch_wrong_length)
  finally show ?thesis by simp
qed

lemma vlq_2: "is_vlq [0x02]" "vlq_value [0x02] = 2"
  by (simp_all add: is_vlq_def vlq_value_def vlq_step_def)

theorem fixed_meta_length_contract_witness:
  "readEvent (in_chunk [0x00, 0xFF, 0x51, 0x02, 0x07, 0xA1] 6) =
     (ET_UNK, (in_chunk [0x07, 0xA1] 2)\<lparr>eventDeltaTicks := 0\<rparr>)"
  using fixed_meta_length_contract
    [of "[0x00]" "[0x02]" "0x51" 3 "in_chunk [0x00, 0xFF, 0x51, 0x02, 0x07, 0xA1] 6" "[0x07, 0xA1]"]
  by (simp add: is_vlq_single vlq_value_0 vlq_2 fixed_meta_size_def in_chunk_def consume_def
      word_sless_alt)

section \<open>Big-endian numbers and the header chunk\<close>

lemma scast_ucast_byte: "(scast (ucast (b::byte) :: c_int) :: c_long) = ucast b"
  by (rule bit_eqI) (auto simp add: bit_simps min_def dest: bit_imp_le_length)

lemma be_step_read: "push_bit 8 r OR scast (ucast (b::byte) :: c_int) = be_step r b"
  by (simp add: be_step_def scast_ucast_byte)

lemma readFixedLong_loop_ok:
  "length bs = n \<Longrightarrow> pStream s = bs @ rest \<Longrightarrow> int n \<le> sint (bytesLeft s) \<Longrightarrow>
   readFixedLong_loop n r s = (foldl be_step r bs, consume n s)"
proof (induction bs arbitrary: n r s)
  case Nil
  then show ?case by (simp add: consume_0)
next
  case (Cons b bs)
  then obtain m where n: "n = Suc m" by (cases n) auto
  from Cons.prems n have pos: "0 <s bytesLeft s" by (simp add: word_sless_alt)
  let ?s1 = "s\<lparr>bytesLeft := bytesLeft s - 1, pStream := bs @ rest\<rparr>"
  have rd: "readChunkByte s = (ucast b, ?s1)"
    using Cons.prems pos by (intro readChunkByte_Cons) simp_all
  have "readFixedLong_loop m (be_step r b) ?s1 = (foldl be_step (be_step r b) bs, consume m ?s1)"
    using Cons.prems n pos by (intro Cons.IH) (simp_all add: sint_dec)
  moreover have "consume m ?s1 = consume (Suc m) s"
    using Cons.prems by (simp add: consume_Suc)
  ultimately show ?case
    using n rd by (simp add: ucast_byte_not_neg be_step_read)
qed

lemma readFixedLong_loop_short:
  "length (pStream s) < n \<Longrightarrow> fst (readFixedLong_loop n r s) = - 1"
proof (induction n arbitrary: r s)
  case 0
  then show ?case by simp
next
  case (Suc n)
  show ?case
  proof (cases "bytesLeft s \<le>s 0")
    case True
    then show ?thesis by (simp add: readChunkByte_neg)
  next
    case False
    then have pos: "0 <s bytesLeft s" by (simp add: word_sless_alt word_sle_eq)
    show ?thesis
    proof (cases "pStream s")
      case Nil
      with pos show ?thesis by (simp add: readChunkByte_Nil)
    next
      case (Cons b bs)
      let ?s1 = "s\<lparr>bytesLeft := bytesLeft s - 1, pStream := bs\<rparr>"
      have rd: "readChunkByte s = (ucast b, ?s1)"
        using pos Cons by (rule readChunkByte_Cons)
      have "fst (readFixedLong_loop n (push_bit 8 r OR scast (ucast b :: c_int)) ?s1) = - 1"
        using Suc.prems Cons by (intro Suc.IH) simp
      then show ?thesis using rd by (simp add: ucast_byte_not_neg)
    qed
  qed
qed

lemma openChunk_sig_ok:
  "pStream s = a # b # c # d # rest \<Longrightarrow>
   openChunk_sig 4 0 [0, 0, 0, 0] s = (None, [a, b, c, d], s\<lparr>pStream := rest\<rparr>)"
  by (simp add: eval_nat_numeral stream_read_def ucast_byte_not_neg ucast_ucast_byte)

lemma openChunk_sig_short:
  "length (pStream s) < 4 \<Longrightarrow>
   fst (openChunk_sig 4 0 [0, 0, 0, 0] s) = Some CT_END \<or>
   fst (openChunk_sig 4 0 [0, 0, 0, 0] s) = Some CT_UNK"
  by (auto simp add: eval_nat_numeral stream_read_def ucast_byte_not_neg split: list.splits)

lemma be16_range: "0 \<le> be16 hi lo" "be16 hi lo < 65536"
  using uint_byte_bound [of hi] uint_byte_bound [of lo] uint_nonnegative [of hi]
    uint_nonnegative [of lo]
  by (simp_all add: be16_def)

lemma be16_or: "be16 hi lo = push_bit 8 (uint hi) OR uint lo"
proof -
  have "push_bit 8 (uint hi) + uint lo = push_bit 8 (uint hi) OR uint lo"
    by (rule disjunctive_add) (auto simp add: bit_simps dest: bit_imp_le_length)
  then show ?thesis by (simp add: be16_def push_bit_eq_mult)
qed

lemma be16_word: "(ucast (foldl be_step 0 [hi, lo]) :: c_int) = word_of_int (be16 hi lo)"
  unfolding be16_or
  by (rule bit_eqI) (auto simp add: be_step_def bit_simps dest: bit_imp_le_length)

lemma sint_be16:
  "sint (word_of_int (be16 hi lo) :: c_int) =
   (if be16 hi lo < 32768 then be16 hi lo else be16 hi lo - 65536)"
proof -
  let ?k = "be16 hi lo"
  note r = be16_range [of hi lo]
  show ?thesis
  proof (cases "?k < 32768")
    case True
    then have "signed_take_bit 15 ?k = ?k"
      using r by (intro signed_take_bit_int_eq_self) simp_all
    with True show ?thesis by (simp add: signed_of_int)
  next
    case False
    have "signed_take_bit 15 (?k - 65536) = ?k - 65536"
      using r False by (intro signed_take_bit_int_eq_self) simp_all
    moreover have "signed_take_bit 15 (?k - 65536) = signed_take_bit 15 ?k"
      using signed_take_bit_diff [of 15 ?k 65536] by (simp add: signed_take_bit_eq_iff_take_bit_eq take_bit_eq_mod)
    ultimately show ?thesis using False by (simp add: signed_of_int)
  qed
qed

lemma be16_negative:
  "((word_of_int (be16 hi lo) :: c_int) <s 0) = (32768 \<le> be16 hi lo)"
  using be16_range [of hi lo] by (auto simp add: word_sless_alt sint_be16)

lemma be32_bytes:
  "ucast (drop_bit 24 (foldl be_step 0 [l3, l2, l1, l0])) = l3"
  "ucast (drop_bit 16 (foldl be_step 0 [l3, l2, l1, l0])) = l2"
  "ucast (drop_bit 8 (foldl be_step 0 [l3, l2, l1, l0])) = l1"
  "ucast (foldl be_step 0 [l3, l2, l1, l0]) = l0"
  by (rule bit_eqI, auto simp add: be_step_def bit_simps dest: bit_imp_le_length)+

lemma be32_is_6:
  "(foldl be_step 0 [l3, l2, l1, l0] = 6) = (l3 = 0 \<and> l2 = 0 \<and> l1 = 0 \<and> l0 = 6)"
proof
  assume a: "foldl be_step 0 [l3, l2, l1, l0] = 6"
  show "l3 = 0 \<and> l2 = 0 \<and> l1 = 0 \<and> l0 = 6"
    using be32_bytes [of l3 l2 l1 l0] unfolding a by simp
next
  assume "l3 = 0 \<and> l2 = 0 \<and> l1 = 0 \<and> l0 = 6"
  then show "foldl be_step 0 [l3, l2, l1, l0] = 6" by (simp add: be_step_def)
qed

lemma list_ge4: "4 \<le> length xs \<Longrightarrow> \<exists>a b c d r. xs = a # b # c # d # r"
  by (auto simp add: numeral_eq_Suc Suc_le_length_iff)

lemma list_ge6: "6 \<le> length xs \<Longrightarrow> \<exists>a b c d e f r. xs = a # b # c # d # e # f # r"
  by (auto simp add: numeral_eq_Suc Suc_le_length_iff)

lemma readFixedLong_ok:
  "length bs = nat (sint n) \<Longrightarrow> pStream s = bs @ rest \<Longrightarrow>
   int (length bs) \<le> sint (bytesLeft s) \<Longrightarrow>
   readFixedLong n s = (foldl be_step 0 bs, consume (length bs) s)"
  unfolding readFixedLong_def
  using readFixedLong_loop_ok [of bs "length bs" s rest 0] by simp

lemma readFixedLong_short:
  "length (pStream s) < nat (sint n) \<Longrightarrow> fst (readFixedLong n s) = - 1"
  unfolding readFixedLong_def by (rule readFixedLong_loop_short)

lemma openChunk_short:
  assumes short: "length (pStream s) < 8"
  shows "fst (openChunk s) \<noteq> CT_MTHD"
proof (cases "length (pStream s) < 4")
  case True
  let ?s0 = "s\<lparr>bytesLeft := - 1, runningStatus := 0, eventType := ET_UNK, eventDeltaTicks := - 1\<rparr>"
  from True have "length (pStream ?s0) < 4" by simp
  from openChunk_sig_short [OF this] show ?thesis
    by (auto simp add: openChunk_def Let_def split: prod.splits)
next
  case False
  then obtain a b c d r1 where st: "pStream s = a # b # c # d # r1"
    using list_ge4 [of "pStream s"] by auto
  let ?s0 = "s\<lparr>bytesLeft := - 1, runningStatus := 0, eventType := ET_UNK, eventDeltaTicks := - 1\<rparr>"
  have sg: "openChunk_sig 4 0 [0, 0, 0, 0] ?s0 = (None, [a, b, c, d], ?s0\<lparr>pStream := r1\<rparr>)"
    using st by (intro openChunk_sig_ok) simp
  let ?s2 = "?s0\<lparr>pStream := r1, bytesLeft := 4\<rparr>"
  have "fst (readFixedLong 4 ?s2) = - 1"
    using st short by (intro readFixedLong_short) simp
  then obtain s3 where rf: "readFixedLong 4 ?s2 = (- 1, s3)"
    by (cases "readFixedLong 4 ?s2") simp
  show ?thesis
    by (simp only: openChunk_def Let_def sg prod.case option.case rf) simp
qed

lemma openChunk_ok:
  assumes st: "pStream s = a # b # c # d # l3 # l2 # l1 # l0 # rest"
  shows "openChunk s =
     (if foldl be_step 0 [l3, l2, l1, l0] <s 0 then CT_UNK
      else if [a, b, c, d] = mthd then CT_MTHD
      else if [a, b, c, d] = mtrk then CT_MTRK
      else CT_UNK,
      s\<lparr>pStream := rest, bytesLeft := foldl be_step 0 [l3, l2, l1, l0], runningStatus := 0,
        eventType := ET_UNK, eventDeltaTicks := - 1\<rparr>)"
proof -
  let ?s0 = "s\<lparr>bytesLeft := - 1, runningStatus := 0, eventType := ET_UNK, eventDeltaTicks := - 1\<rparr>"
  have sg: "openChunk_sig 4 0 [0, 0, 0, 0] ?s0 =
      (None, [a, b, c, d], ?s0\<lparr>pStream := l3 # l2 # l1 # l0 # rest\<rparr>)"
    using st by (intro openChunk_sig_ok) simp
  let ?s2 = "?s0\<lparr>pStream := l3 # l2 # l1 # l0 # rest, bytesLeft := 4\<rparr>"
  have rf: "readFixedLong 4 ?s2 = (foldl be_step 0 [l3, l2, l1, l0], consume (length [l3, l2, l1, l0]) ?s2)"
    by (rule readFixedLong_ok [where rest = rest]) simp_all
  show ?thesis
    apply (simp only: openChunk_def Let_def sg prod.case option.case rf)
    apply (cases s)
    apply (simp add: consume_def)
    done
qed

lemma read2_ok:
  "pStream s = hi # lo # rest \<Longrightarrow> 2 \<le> sint (bytesLeft s) \<Longrightarrow>
   readFixedLong 2 s = (foldl be_step 0 [hi, lo], consume 2 s)"
  using readFixedLong_ok [of "[hi, lo]" 2 s rest] by (simp add: numeral_2_eq_2)

lemma read2_short:
  "length (pStream s) < 2 \<Longrightarrow> fst (readFixedLong 2 s) = - 1"
  by (rule readFixedLong_short) simp

lemma ucast_m1: "(ucast (- 1 :: c_long) :: c_int) = - 1"
  by (rule bit_eqI) (simp add: bit_simps)

lemma ucast_m1_negative: "(ucast (- 1 :: c_long) :: c_int) <s 0"
  by (simp add: ucast_m1 word_sless_alt)

lemma be16_word_steps:
  "(ucast (be_step (be_step 0 hi) lo) :: c_int) = word_of_int (be16 hi lo)"
  using be16_word [of hi lo] by simp

lemma mfs_begin_fields_ok:
  assumes bl: "bytesLeft s = 6" and st: "pStream s = f1 # f0 # t1 # t0 # d1 # d0 # rest"
  shows "fst (mfs_begin_fields s) =
           (be16 f1 f0 < 32768 \<and> be16 t1 t0 < 32768 \<and> be16 d1 d0 < 32768)"
    and "be16 f1 f0 < 32768 \<Longrightarrow> format (snd (mfs_begin_fields s)) = word_of_int (be16 f1 f0)"
    and "be16 f1 f0 < 32768 \<Longrightarrow> be16 t1 t0 < 32768 \<Longrightarrow>
           numTracks (snd (mfs_begin_fields s)) = word_of_int (be16 t1 t0)"
    and "be16 f1 f0 < 32768 \<Longrightarrow> be16 t1 t0 < 32768 \<Longrightarrow>
           ticksPerBeat (snd (mfs_begin_fields s)) = word_of_int (be16 d1 d0)"
    and "be16 f1 f0 < 32768 \<Longrightarrow> be16 t1 t0 < 32768 \<Longrightarrow> be16 d1 d0 < 32768 \<Longrightarrow>
           pStream (snd (mfs_begin_fields s)) = rest \<and> bytesLeft (snd (mfs_begin_fields s)) = 0"
proof -
  have r1: "readFixedLong 2 s = (foldl be_step 0 [f1, f0], consume 2 s)"
    using st bl by (intro read2_ok [where rest = "t1 # t0 # d1 # d0 # rest"]) simp_all
  let ?s3 = "(consume 2 s)\<lparr>format := ucast (foldl be_step 0 [f1, f0])\<rparr>"
  have r2: "readFixedLong 2 ?s3 = (foldl be_step 0 [t1, t0], consume 2 ?s3)"
    using st bl by (intro read2_ok [where rest = "d1 # d0 # rest"]) (simp_all add: consume_def)
  let ?s5 = "(consume 2 ?s3)\<lparr>numTracks := ucast (foldl be_step 0 [t1, t0])\<rparr>"
  have r3: "readFixedLong 2 ?s5 = (foldl be_step 0 [d1, d0], consume 2 ?s5)"
    using st bl by (intro read2_ok [where rest = rest]) (simp_all add: consume_def)
  let ?s7 = "(consume 2 ?s5)\<lparr>ticksPerBeat := ucast (foldl be_step 0 [d1, d0])\<rparr>"
  have b7: "bytesLeft ?s7 = 0" "pStream ?s7 = rest" using bl st by (simp_all add: consume_def)
  have eq: "mfs_begin_fields s =
     (if be16 f1 f0 < 32768 then
        if be16 t1 t0 < 32768 then
          if be16 d1 d0 < 32768 then (True, ?s7) else (False, ?s7)
        else (False, ?s5)
      else (False, ?s3))"
  proof -
    have n3: "(format ?s3 <s 0) = (32768 \<le> be16 f1 f0)"
      by (simp add: be16_word_steps be16_negative)
    have n5: "(numTracks ?s5 <s 0) = (32768 \<le> be16 t1 t0)"
      by (simp add: be16_word_steps be16_negative)
    have n7: "(ticksPerBeat ?s7 <s 0) = (32768 \<le> be16 d1 d0)"
      by (simp add: be16_word_steps be16_negative)
    have z7: "(0 <s bytesLeft ?s7) = False" by (simp only: b7) simp
    show ?thesis
      apply (simp only: mfs_begin_fields_def Let_def r1 r2 r3 prod.case n3 n5 n7 z7 if_False)
      apply (simp only: not_le [symmetric] if_not_P if_P split: if_splits)
      apply auto
      done
  qed
  show "fst (mfs_begin_fields s) =
           (be16 f1 f0 < 32768 \<and> be16 t1 t0 < 32768 \<and> be16 d1 d0 < 32768)"
    by (simp add: eq)
  show "be16 f1 f0 < 32768 \<Longrightarrow> format (snd (mfs_begin_fields s)) = word_of_int (be16 f1 f0)"
    by (simp only: eq be16_word [symmetric]) (simp add: consume_def)
  show "be16 f1 f0 < 32768 \<Longrightarrow> be16 t1 t0 < 32768 \<Longrightarrow>
           numTracks (snd (mfs_begin_fields s)) = word_of_int (be16 t1 t0)"
    by (simp only: eq be16_word [symmetric]) (simp add: consume_def)
  show "be16 f1 f0 < 32768 \<Longrightarrow> be16 t1 t0 < 32768 \<Longrightarrow>
           ticksPerBeat (snd (mfs_begin_fields s)) = word_of_int (be16 d1 d0)"
    by (simp only: eq be16_word [symmetric]) (simp add: consume_def)
  show "be16 f1 f0 < 32768 \<Longrightarrow> be16 t1 t0 < 32768 \<Longrightarrow> be16 d1 d0 < 32768 \<Longrightarrow>
           pStream (snd (mfs_begin_fields s)) = rest \<and> bytesLeft (snd (mfs_begin_fields s)) = 0"
    using b7 by (simp only: eq) simp
qed

lemma list_ge2: "2 \<le> length xs \<Longrightarrow> \<exists>a b r. xs = a # b # r"
  by (auto simp add: numeral_eq_Suc Suc_le_length_iff)

lemma mfs_begin_fields_short:
  assumes bl: "bytesLeft s = 6" and short: "length (pStream s) < 6"
  shows "\<not> fst (mfs_begin_fields s)"
proof (cases "length (pStream s) < 2")
  case True
  then have "fst (readFixedLong 2 s) = - 1" by (rule read2_short)
  then obtain s2 where r1: "readFixedLong 2 s = (- 1, s2)"
    by (cases "readFixedLong 2 s") simp
  show ?thesis
    by (simp only: mfs_begin_fields_def Let_def r1 prod.case) (simp add: ucast_m1_negative)
next
  case False
  then obtain f1 f0 ra where st: "pStream s = f1 # f0 # ra"
    using list_ge2 [of "pStream s"] by auto
  have r1: "readFixedLong 2 s = (foldl be_step 0 [f1, f0], consume 2 s)"
    using st bl by (intro read2_ok [where rest = ra]) simp_all
  let ?s3 = "(consume 2 s)\<lparr>format := ucast (foldl be_step 0 [f1, f0])\<rparr>"
  have p3: "pStream ?s3 = ra" "bytesLeft ?s3 = 4" using st bl by (simp_all add: consume_def)
  show ?thesis
  proof (cases "length ra < 2")
    case True
    then have "fst (readFixedLong 2 ?s3) = - 1" by (intro read2_short) (simp only: p3)
    then obtain s4 where r2: "readFixedLong 2 ?s3 = (- 1, s4)"
      by (cases "readFixedLong 2 ?s3") simp
    show ?thesis
      by (simp only: mfs_begin_fields_def Let_def r1 r2 prod.case) (simp add: ucast_m1_negative)
  next
    case False
    then obtain t1 t0 rb where sa: "ra = t1 # t0 # rb"
      using list_ge2 [of ra] by auto
    have r2: "readFixedLong 2 ?s3 = (foldl be_step 0 [t1, t0], consume 2 ?s3)"
      using sa p3 by (intro read2_ok [where rest = rb]) simp_all
    let ?s5 = "(consume 2 ?s3)\<lparr>numTracks := ucast (foldl be_step 0 [t1, t0])\<rparr>"
    have p5: "pStream ?s5 = rb" "bytesLeft ?s5 = 2"
      using st sa bl by (simp_all add: consume_def)
    have "length rb < 2" using short st sa by simp
    then have "fst (readFixedLong 2 ?s5) = - 1" by (intro read2_short) (simp only: p5)
    then obtain s6 where r3: "readFixedLong 2 ?s5 = (- 1, s6)"
      by (cases "readFixedLong 2 ?s5") simp
    show ?thesis
      by (simp only: mfs_begin_fields_def Let_def r1 r2 r3 prod.case) (simp add: ucast_m1_negative)
  qed
qed

lemma mfs_begin_short:
  assumes "length stream < 14"
  shows "\<not> fst (mfs_begin stream s)"
proof -
  let ?s0 = "s\<lparr>pStream := stream, bytesLeft := - 1, format := - 1, numTracks := - 1,
                 ticksPerBeat := 0, runningStatus := 0, eventType := ET_UNK,
                 eventDeltaTicks := - 1\<rparr>"
  obtain ct s1 where oc: "openChunk ?s0 = (ct, s1)" by (cases "openChunk ?s0")
  show ?thesis
  proof (cases "length stream < 8")
    case True
    then have "fst (openChunk ?s0) \<noteq> CT_MTHD" by (intro openChunk_short) simp
    then show ?thesis
      by (simp only: mfs_begin_def Let_def oc prod.case) (simp add: oc)
  next
    case False
    then obtain a b c d r1 where s1: "stream = a # b # c # d # r1"
      using list_ge4 [of stream] by auto
    with False obtain l3 l2 l1 l0 rest where s2: "r1 = l3 # l2 # l1 # l0 # rest"
      using list_ge4 [of r1] by auto
    have st: "pStream ?s0 = a # b # c # d # l3 # l2 # l1 # l0 # rest" by (simp add: s1 s2)
    note oc' = openChunk_ok [OF st]
    have p1: "pStream s1 = rest" "bytesLeft s1 = foldl be_step 0 [l3, l2, l1, l0]"
      using oc oc' by auto
    have "\<not> fst (mfs_begin_fields s1)" if "bytesLeft s1 = 6"
      using that assms p1 s1 s2 by (intro mfs_begin_fields_short) simp_all
    then show ?thesis
      by (simp only: mfs_begin_def Let_def oc prod.case) simp
  qed
qed

lemma mfs_begin_full:
  assumes sg: "length sg = 4" and ln: "length ln = 4"
    and st: "stream = sg @ ln @ [f1, f0, t1, t0, d1, d0] @ rest"
  shows "fst (mfs_begin stream s) =
           (sg = mthd \<and> ln = [0, 0, 0, 6] \<and>
            be16 f1 f0 < 32768 \<and> be16 t1 t0 < 32768 \<and> be16 d1 d0 < 32768)"
    and "fst (mfs_begin stream s) \<Longrightarrow>
           format (snd (mfs_begin stream s)) = word_of_int (be16 f1 f0) \<and>
           numTracks (snd (mfs_begin stream s)) = word_of_int (be16 t1 t0) \<and>
           ticksPerBeat (snd (mfs_begin stream s)) = word_of_int (be16 d1 d0)"
    and "sg = mthd \<Longrightarrow> ln = [0, 0, 0, 6] \<Longrightarrow> be16 f1 f0 < 32768 \<Longrightarrow> be16 t1 t0 < 32768 \<Longrightarrow>
           ticksPerBeat (snd (mfs_begin stream s)) = word_of_int (be16 d1 d0)"
proof -
  from sg obtain a b c d where sg': "sg = [a, b, c, d]"
    by (auto simp add: numeral_eq_Suc length_Suc_conv)
  from ln obtain l3 l2 l1 l0 where ln': "ln = [l3, l2, l1, l0]"
    by (auto simp add: numeral_eq_Suc length_Suc_conv)
  let ?s0 = "s\<lparr>pStream := stream, bytesLeft := - 1, format := - 1, numTracks := - 1,
                 ticksPerBeat := 0, runningStatus := 0, eventType := ET_UNK,
                 eventDeltaTicks := - 1\<rparr>"
  let ?l = "foldl be_step 0 [l3, l2, l1, l0]"
  let ?ct = "if ?l <s 0 then CT_UNK
      else if [a, b, c, d] = mthd then CT_MTHD
      else if [a, b, c, d] = mtrk then CT_MTRK
      else CT_UNK"
  let ?s1 = "?s0\<lparr>pStream := f1 # f0 # t1 # t0 # d1 # d0 # rest, bytesLeft := ?l, runningStatus := 0,
        eventType := ET_UNK, eventDeltaTicks := - 1\<rparr>"
  have "pStream ?s0 = a # b # c # d # l3 # l2 # l1 # l0 # f1 # f0 # t1 # t0 # d1 # d0 # rest"
    by (simp add: st sg' ln')
  from openChunk_ok [OF this] have oc: "openChunk ?s0 = (?ct, ?s1)" .
  have p1: "pStream ?s1 = f1 # f0 # t1 # t0 # d1 # d0 # rest" "bytesLeft ?s1 = ?l" by simp_all
  have mthd_ne: "mthd \<noteq> mtrk" by (simp add: mthd_def mtrk_def)
  have six: "\<not> (6::c_long) <s 0" by (simp add: word_sless_alt)
  have eq: "mfs_begin stream s =
      (if sg = mthd \<and> ln = [0, 0, 0, 6] then mfs_begin_fields ?s1 else (False, ?s1))"
  proof (cases "?l = 6")
    case True
    then have "ln = [0, 0, 0, 6]" using be32_is_6 [of l3 l2 l1 l0] by (simp add: ln')
    with True six show ?thesis
      by (simp only: mfs_begin_def Let_def oc prod.case p1) (simp add: sg')
  next
    case False
    then have "ln \<noteq> [0, 0, 0, 6]" using be32_is_6 [of l3 l2 l1 l0] by (simp add: ln')
    with False show ?thesis
      by (simp only: mfs_begin_def Let_def oc prod.case p1) (simp add: sg')
  qed
  have fields: "bytesLeft ?s1 = 6" if "ln = [0, 0, 0, 6]"
    using that by (simp add: ln' be_step_def)
  note fo = mfs_begin_fields_ok [OF _ p1(1)]
  show "fst (mfs_begin stream s) =
           (sg = mthd \<and> ln = [0, 0, 0, 6] \<and>
            be16 f1 f0 < 32768 \<and> be16 t1 t0 < 32768 \<and> be16 d1 d0 < 32768)"
    using fo(1) fields by (auto simp only: eq fst_conv split: if_splits)
  show "format (snd (mfs_begin stream s)) = word_of_int (be16 f1 f0) \<and>
           numTracks (snd (mfs_begin stream s)) = word_of_int (be16 t1 t0) \<and>
           ticksPerBeat (snd (mfs_begin stream s)) = word_of_int (be16 d1 d0)"
    if "fst (mfs_begin stream s)"
  proof -
    from that have c: "sg = mthd \<and> ln = [0, 0, 0, 6]"
      by (auto simp only: eq fst_conv split: if_splits)
    then have b: "bytesLeft ?s1 = 6" using fields by simp
    from that c have "fst (mfs_begin_fields ?s1)" by (simp add: eq)
    then have r: "be16 f1 f0 < 32768 \<and> be16 t1 t0 < 32768 \<and> be16 d1 d0 < 32768"
      using fo(1) [OF b] by simp
    show ?thesis
      using c r fo(2) [OF b] fo(3) [OF b] fo(4) [OF b] by (simp add: eq)
  qed
  show "ticksPerBeat (snd (mfs_begin stream s)) = word_of_int (be16 d1 d0)"
    if "sg = mthd" "ln = [0, 0, 0, 6]" "be16 f1 f0 < 32768" "be16 t1 t0 < 32768"
  proof -
    have b: "bytesLeft ?s1 = 6" using fields that by simp
    show ?thesis
      using that fo(4) [OF b] by (simp add: eq)
  qed
qed

lemma header_split:
  assumes "14 \<le> length stream"
  shows "stream = take 4 stream @ take 4 (drop 4 stream) @
     [stream ! 8, stream ! 9, stream ! 10, stream ! 11, stream ! 12, stream ! 13] @ drop 14 stream"
proof -
  obtain a b c d r1 where s1: "stream = a # b # c # d # r1"
    using assms list_ge4 [of stream] by auto
  obtain e f g h r2 where s2: "r1 = e # f # g # h # r2"
    using assms s1 list_ge4 [of r1] by auto
  obtain i j k l m n r3 where s3: "r2 = i # j # k # l # m # n # r3"
    using assms s1 s2 list_ge6 [of r2] by auto
  show ?thesis by (simp add: s1 s2 s3)
qed

lemma sint_header_field:
  "be16 hi lo < 32768 \<Longrightarrow> sint (word_of_int (be16 hi lo) :: c_int) = be16 hi lo"
  by (simp add: sint_be16)

section \<open>The file header\<close>

text \<open>
  C7.  \<open>begin\<close> returns false when the first four bytes of the stream are not
  \<open>MThd\<close>, when the next four bytes are not the length 6, and when the stream ends
  before the six bytes of the three fields.  When it returns true, \<open>getFormat\<close>,
  \<open>getNumTracks\<close> and \<open>getTicksPerBeat\<close> are the numbers that the bytes 8..9, 10..11 and
  12..13 of the stream encode big-endian.
\<close>

theorem begin_reads_header:
  "(take 4 stream1 \<noteq> mthd \<longrightarrow> \<not> fst (mfs_begin stream1 s1)) \<and>
   (take 4 (drop 4 stream2) \<noteq> [0, 0, 0, 6] \<longrightarrow> \<not> fst (mfs_begin stream2 s2)) \<and>
   (length stream3 < 14 \<longrightarrow> \<not> fst (mfs_begin stream3 s3)) \<and>
   (fst (mfs_begin stream s) \<longrightarrow>
      sint (getFormat (snd (mfs_begin stream s))) = be16 (stream ! 8) (stream ! 9) \<and>
      sint (getNumTracks (snd (mfs_begin stream s))) = be16 (stream ! 10) (stream ! 11) \<and>
      sint (getTicksPerBeat (snd (mfs_begin stream s))) = be16 (stream ! 12) (stream ! 13))"
proof -
  have full: "fst (mfs_begin str t) \<Longrightarrow>
      take 4 str = mthd \<and> take 4 (drop 4 str) = [0, 0, 0, 6] \<and>
      be16 (str ! 8) (str ! 9) < 32768 \<and> be16 (str ! 10) (str ! 11) < 32768 \<and>
      be16 (str ! 12) (str ! 13) < 32768 \<and>
      format (snd (mfs_begin str t)) = word_of_int (be16 (str ! 8) (str ! 9)) \<and>
      numTracks (snd (mfs_begin str t)) = word_of_int (be16 (str ! 10) (str ! 11)) \<and>
      ticksPerBeat (snd (mfs_begin str t)) = word_of_int (be16 (str ! 12) (str ! 13))"
    for str t
  proof -
    assume ok: "fst (mfs_begin str t)"
    then have len: "14 \<le> length str"
      using mfs_begin_short [of str t] by (cases "length str < 14") simp_all
    note sp = header_split [OF len]
    have l4: "length (take 4 str) = 4" "length (take 4 (drop 4 str)) = 4"
      using len by simp_all
    note mf = mfs_begin_full [OF l4 sp, of t]
    from ok mf(1) mf(2) show ?thesis by simp
  qed
  show ?thesis
    using full [of stream1 s1] full [of stream2 s2] full [of stream s]
      mfs_begin_short [of stream3 s3]
    by (auto simp add: getFormat_def getNumTracks_def getTicksPerBeat_def sint_header_field)
qed

theorem begin_reads_header_witness:
  "\<not> fst (mfs_begin (mtrk @ drop 4 good_header) (in_chunk [] 0)) \<and>
   \<not> fst (mfs_begin (mthd @ [0, 0, 0, 7] @ drop 8 good_header) (in_chunk [] 0)) \<and>
   \<not> fst (mfs_begin (take 13 good_header) (in_chunk [] 0)) \<and>
   fst (mfs_begin good_header (in_chunk [] 0)) \<and>
   sint (getFormat (snd (mfs_begin good_header (in_chunk [] 0)))) = 1 \<and>
   sint (getNumTracks (snd (mfs_begin good_header (in_chunk [] 0)))) = 2 \<and>
   sint (getTicksPerBeat (snd (mfs_begin good_header (in_chunk [] 0)))) = 480"
proof -
  have ok: "fst (mfs_begin good_header (in_chunk [] 0))"
    using mfs_begin_full(1) [of mthd "[0, 0, 0, 6]" good_header "0x00" "0x01" "0x00" "0x02" "0x01" "0xE0"
        "[0x4D, 0x54, 0x72, 0x6B]" "in_chunk [] 0"]
    by (simp add: good_header_def mthd_def be16_def)
  show ?thesis
    using begin_reads_header
      [of "mtrk @ drop 4 good_header" "in_chunk [] 0"
          "mthd @ [0, 0, 0, 7] @ drop 8 good_header" "in_chunk [] 0"
          "take 13 good_header" "in_chunk [] 0"
          good_header "in_chunk [] 0"] ok
    by (simp add: good_header_def mthd_def mtrk_def be16_def)
qed

section \<open>The division field\<close>

text \<open>
  C8.  A header whose division field, the two bytes after the track count, has its top
  bit set, that is a number from 0x8000 to 0xFFFF, makes \<open>begin\<close> return false.  When the
  header is well formed up to there, the value stored in \<open>_ticksPerBeat\<close>, a 16-bit \<open>int\<close>,
  is the division minus 65536, a negative number, which is what the check rejects.
\<close>

theorem begin_rejects_smpte_division:
  assumes "length h8 = 8"
    and "stream = h8 @ [f1, f0, t1, t0, d1, d0] @ rest"
    and "0x8000 \<le> be16 d1 d0"
  shows "\<not> fst (mfs_begin stream s) \<and> be16 d1 d0 \<le> 0xFFFF \<and>
     (h8 = mthd @ [0, 0, 0, 6] \<and> be16 f1 f0 < 0x8000 \<and> be16 t1 t0 < 0x8000 \<longrightarrow>
        getTicksPerBeat (snd (mfs_begin stream s)) <s 0 \<and>
        sint (getTicksPerBeat (snd (mfs_begin stream s))) = be16 d1 d0 - 65536)"
proof -
  have sp: "stream = take 4 h8 @ drop 4 h8 @ [f1, f0, t1, t0, d1, d0] @ rest"
    using assms(2) by simp
  have l4: "length (take 4 h8) = 4" "length (drop 4 h8) = 4" using assms(1) by simp_all
  note mf = mfs_begin_full [OF l4 sp, of s]
  have no: "\<not> fst (mfs_begin stream s)" using mf(1) assms(3) by simp
  have rng: "be16 d1 d0 \<le> 0xFFFF" using be16_range(2) [of d1 d0] by simp
  have via: "getTicksPerBeat (snd (mfs_begin stream s)) <s 0 \<and>
        sint (getTicksPerBeat (snd (mfs_begin stream s))) = be16 d1 d0 - 65536"
    if "h8 = mthd @ [0, 0, 0, 6] \<and> be16 f1 f0 < 0x8000 \<and> be16 t1 t0 < 0x8000"
  proof -
    from that have "take 4 h8 = mthd" "drop 4 h8 = [0, 0, 0, 6]" by (simp_all add: mthd_def)
    with that have "ticksPerBeat (snd (mfs_begin stream s)) = word_of_int (be16 d1 d0)"
      by (intro mf(3)) simp_all
    then show ?thesis
      using assms(3) by (simp add: getTicksPerBeat_def be16_negative sint_be16)
  qed
  from no rng via show ?thesis by blast
qed

theorem begin_rejects_smpte_division_witness:
  "\<not> fst (mfs_begin smpte_header (in_chunk [] 0)) \<and>
   getTicksPerBeat (snd (mfs_begin smpte_header (in_chunk [] 0))) <s 0 \<and>
   sint (getTicksPerBeat (snd (mfs_begin smpte_header (in_chunk [] 0)))) = - 6360"
  using begin_rejects_smpte_division
    [of "mthd @ [0, 0, 0, 6]" smpte_header "0x00" "0x01" "0x00" "0x02" "0xE7" "0x28"
        "[0x4D, 0x54, 0x72, 0x6B]" "in_chunk [] 0"]
  by (simp add: smpte_header_def mthd_def be16_def)

section \<open>Steps that stay within the budget\<close>



lemma wb_other_fields [simp]:
  "within_budget s (t\<lparr>format := x1\<rparr>) = within_budget s t"
  "within_budget s (t\<lparr>numTracks := x2\<rparr>) = within_budget s t"
  "within_budget s (t\<lparr>ticksPerBeat := x3\<rparr>) = within_budget s t"
  "within_budget s (t\<lparr>runningStatus := x4\<rparr>) = within_budget s t"
  "within_budget s (t\<lparr>eventType := x5\<rparr>) = within_budget s t"
  "within_budget s (t\<lparr>eventDeltaTicks := x6\<rparr>) = within_budget s t"
  "within_budget s (t\<lparr>eventData := x7\<rparr>) = within_budget s t"
  by (simp_all add: within_budget_def)











lemma snd_ret [simp]: "snd (ret t) = t"
  by (simp add: ret_def)

lemma snd_fail_ev [simp]: "snd (fail_ev t) = t\<lparr>eventType := ET_UNK\<rparr>"
  by (simp add: fail_ev_def)


















section \<open>The byte budget\<close>



end
